theory Spec2Isabelle
  imports Complex_Main "HOL-Library.AList"
begin

section \<open>JavaScript strings\<close>

text \<open>
  A JavaScript string is a sequence of UTF-16 code units; \<open>length\<close> counts code units,
  as \<^verbatim>\<open>String.prototype.length\<close> does. String literals of the source are written
  \<open>js ''...''\<close>.
\<close>

type_synonym jsstring = "nat list"

definition js :: "string \<Rightarrow> jsstring" where
  "js s = map of_char s"

text \<open>
  The code units that \<^verbatim>\<open>\s\<close> matches and \<^verbatim>\<open>trim()\<close> strips (ECMAScript WhiteSpace and
  LineTerminator): TAB, LF, VT, FF, CR, SPACE, NBSP, U+1680, U+2000..U+200A, U+2028,
  U+2029, U+202F, U+205F, U+3000, U+FEFF.
\<close>

definition isWhiteSpace :: "nat \<Rightarrow> bool" where
  "isWhiteSpace c =
     (c = 9 \<or> c = 10 \<or> c = 11 \<or> c = 12 \<or> c = 13 \<or> c = 32 \<or> c = 160 \<or> c = 5760 \<or>
      (8192 \<le> c \<and> c \<le> 8202) \<or> c = 8232 \<or> c = 8233 \<or> c = 8239 \<or> c = 8287 \<or>
      c = 12288 \<or> c = 65279)"

definition trim :: "jsstring \<Rightarrow> jsstring" where
  "trim s = rev (dropWhile isWhiteSpace (rev (dropWhile isWhiteSpace s)))"

text \<open>\<^verbatim>\<open>s.includes(sub)\<close>: \<open>sub\<close> occurs in \<open>s\<close> at some position.\<close>

fun startsWith :: "jsstring \<Rightarrow> jsstring \<Rightarrow> bool" where
  "startsWith s [] = True"
| "startsWith [] (c # sub) = False"
| "startsWith (d # s) (c # sub) = (d = c \<and> startsWith s sub)"

fun js_includes :: "jsstring \<Rightarrow> jsstring \<Rightarrow> bool" where
  "js_includes [] sub = (sub = [])"
| "js_includes (c # s) sub = (startsWith (c # s) sub \<or> js_includes s sub)"

text \<open>
  \<^verbatim>\<open>originalText.match(/^\s*/)[0]\<close>: the longest run of white space at the start.
\<close>

definition leadingSpace :: "jsstring \<Rightarrow> jsstring" where
  "leadingSpace s = takeWhile isWhiteSpace s"

text \<open>
  \<^verbatim>\<open>originalText.match(/\s*$/)[0]\<close>: the regular expression engine tries the start
  positions from left to right; at a position the greedy \<^verbatim>\<open>\s*\<close> followed by \<^verbatim>\<open>$\<close>
  matches exactly when everything from there to the end is white space. The first such
  position gives the match.
\<close>

fun trailingSpace :: "jsstring \<Rightarrow> jsstring" where
  "trailingSpace [] = []"
| "trailingSpace (c # s) = (if list_all isWhiteSpace (c # s) then c # s else trailingSpace s)"

section \<open>JavaScript numbers\<close>

text \<open>
  A JavaScript number is an IEEE 754 double. The finite doubles are real numbers, and
  each arithmetic operation gives the exact result rounded to the nearest double, ties
  to the even significand. \<open>bitLength n\<close> is the number of binary digits of \<open>n\<close>;
  \<open>binade x\<close> is the exponent \<open>e\<close> with \<open>2 ^ e \<le> \<bar>x\<bar> < 2 ^ (e + 1)\<close>; \<open>scale2 e x\<close> is
  \<open>x * 2 ^ e\<close>. A double has 53 significant bits, and below \<open>2 ^ (- 1022)\<close> the spacing
  stays \<open>2 ^ (- 1074)\<close>. Results beyond the largest double (about \<open>1.8 * 10 ^ 308\<close>) would
  be infinite; the lengths in CSS pixels computed here stay far below.
\<close>

fun bitLength :: "nat \<Rightarrow> nat" where
  "bitLength n = (if n = 0 then 0 else Suc (bitLength (n div 2)))"

declare bitLength.simps [simp del]

definition binade :: "real \<Rightarrow> int" where
  "binade x =
     (if 1 \<le> \<bar>x\<bar> then int (bitLength (nat \<lfloor>\<bar>x\<bar>\<rfloor>)) - 1
      else - int (bitLength (nat (\<lceil>1 / \<bar>x\<bar>\<rceil> - 1))))"

definition scale2 :: "int \<Rightarrow> real \<Rightarrow> real" where
  "scale2 e x = (if 0 \<le> e then x * 2 ^ nat e else x / 2 ^ nat (- e))"

definition roundHalfEven :: "real \<Rightarrow> int" where
  "roundHalfEven x =
     (let f = \<lfloor>x\<rfloor>; r = x - of_int f
      in if r < 1 / 2 then f else if 1 / 2 < r then f + 1 else if even f then f else f + 1)"

definition roundDouble :: "real \<Rightarrow> real" where
  "roundDouble x =
     (if x = 0 then 0
      else let e = max (binade x - 52) (- 1074)
           in scale2 e (of_int (roundHalfEven (scale2 (- e) x))))"

text \<open>The operators \<^verbatim>\<open>+\<close>, \<^verbatim>\<open>-\<close>, \<^verbatim>\<open>*\<close> and \<^verbatim>\<open>/\<close> on doubles.\<close>

definition dadd :: "real \<Rightarrow> real \<Rightarrow> real" where
  "dadd x y = roundDouble (x + y)"

definition dsub :: "real \<Rightarrow> real \<Rightarrow> real" where
  "dsub x y = roundDouble (x - y)"

definition dmul :: "real \<Rightarrow> real \<Rightarrow> real" where
  "dmul x y = roundDouble (x * y)"

definition ddiv :: "real \<Rightarrow> real \<Rightarrow> real" where
  "ddiv x y = roundDouble (x / y)"

text \<open>Evaluation of these functions on numerals.\<close>

lemma bitLength_numeral:
  "bitLength 0 = 0"
  "bitLength (Suc 0) = 1"
  "bitLength 1 = 1"
  "bitLength (numeral k) = Suc (bitLength (numeral k div 2))"
proof -
  show "bitLength 0 = 0" by (simp add: bitLength.simps)
  show "bitLength (Suc 0) = 1" by (simp add: bitLength.simps)
  then show "bitLength 1 = 1" by simp
  show "bitLength (numeral k) = Suc (bitLength (numeral k div 2))"
    by (subst bitLength.simps) simp
qed

lemmas double_eval =
  dadd_def dsub_def dmul_def ddiv_def roundDouble_def binade_def bitLength_numeral
  roundHalfEven_def scale2_def Let_def

section \<open>The host: what the browser supplies\<close>

text \<open>
  The Unicode tables behind \<^verbatim>\<open>toLowerCase()\<close> and \<^verbatim>\<open>/\p{L}/u\<close>, the window size and the
  document language (\<^verbatim>\<open>getPageLanguage()\<close>) are parameters of the model. Lengths in CSS
  pixels are doubles.
\<close>

record host =
  toLowerCase :: "jsstring \<Rightarrow> jsstring"
  hasLetters :: "jsstring \<Rightarrow> bool"
  innerWidth :: real
  innerHeight :: real
  pageLanguage :: jsstring

record rect =
  r_top :: real
  r_bottom :: real
  r_left :: real
  r_right :: real
  r_width :: real

text \<open>
  What reading the property \<^verbatim>\<open>id\<close> of an element gives: a string, or an object. A
  \<^verbatim>\<open><form>\<close> exposes its controls by name before its own properties, so for a form that
  has a control whose \<^verbatim>\<open>name\<close> or \<^verbatim>\<open>id\<close> is \<^verbatim>\<open>"id"\<close> (a hidden input named \<^verbatim>\<open>id\<close>, say)
  \<^verbatim>\<open>form.id\<close> is that control, an object without a method \<^verbatim>\<open>toLowerCase\<close>.
\<close>

datatype jsvalue = JsString jsstring | JsObject

text \<open>The exception a call of a method that does not exist raises.\<close>

datatype error = TypeError

text \<open>
  An element, with what the code reads from it: \<open>elem_id\<close> is the property \<^verbatim>\<open>id\<close>,
  \<open>className\<close> is \<open>None\<close> when it is not a string (an SVG element), \<open>role\<close> and \<open>translate\<close>
  are attributes (\<open>None\<close> when absent), \<open>display\<close> and \<open>visibility\<close> are the computed
  style, \<open>boundingRect\<close> is \<^verbatim>\<open>getBoundingClientRect()\<close>. The other properties and methods
  the code uses (\<^verbatim>\<open>tagName\<close>, \<^verbatim>\<open>getAttribute\<close>, \<^verbatim>\<open>parentElement\<close>,
  \<^verbatim>\<open>getBoundingClientRect\<close>) are taken to be the built-in ones.
\<close>

record element =
  tagName :: jsstring
  elem_id :: jsvalue
  className :: "jsstring option"
  role :: "jsstring option"
  translate :: "jsstring option"
  isContentEditable :: bool
  display :: jsstring
  visibility :: jsstring
  boundingRect :: rect

section \<open>Priority scorer: calculatePriority\<close>

definition inViewport :: "host \<Rightarrow> rect \<Rightarrow> bool" where
  "inViewport h r =
     (r_top r < innerHeight h \<and> r_bottom r > 0 \<and> r_left r < innerWidth h \<and> r_right r > 0)"

text \<open>1. Viewport visibility.\<close>

definition viewportScore :: "host \<Rightarrow> rect \<Rightarrow> int" where
  "viewportScore h r =
     (if inViewport h r
      then 10000 + (if r_top r \<ge> 0 \<and> r_top r < ddiv (innerHeight h) 2 then 200 else 0)
      else 0)"

text \<open>2. Text length.\<close>

definition lengthScore :: "nat \<Rightarrow> int" where
  "lengthScore textLength =
     (if textLength \<ge> 200 then 150
      else if textLength \<ge> 100 then 100
      else if textLength \<ge> 50 then 60
      else if textLength \<ge> 20 then 30
      else - 20)"

text \<open>
  3. Semantic context. \<^verbatim>\<open>(ancestor.id || '').toLowerCase()\<close>: a string is lower-cased (the
  empty string is falsy and replaced by itself); an object is truthy and has no method
  \<^verbatim>\<open>toLowerCase\<close>, so the call throws.
\<close>

definition lowerId :: "host \<Rightarrow> element \<Rightarrow> error + jsstring" where
  "lowerId h a =
     (case elem_id a of
        JsString s \<Rightarrow> Inr (toLowerCase h s)
      | JsObject \<Rightarrow> Inl TypeError)"

text \<open>The indicators tested on one ancestor; \<open>ident\<close> is its lower-cased id.\<close>

definition mainContentIndicator :: "host \<Rightarrow> element \<Rightarrow> jsstring \<Rightarrow> bool" where
  "mainContentIndicator h a ident =
     (let tag = tagName a;
          classes = (case className a of Some c \<Rightarrow> if c \<noteq> [] then toLowerCase h c else [] | None \<Rightarrow> []);
          rl = toLowerCase h (case role a of Some r \<Rightarrow> r | None \<Rightarrow> [])
      in (tag = js ''MAIN'' \<or> tag = js ''ARTICLE'') \<or>
         (rl = js ''main'' \<or> rl = js ''article'') \<or>
         (js_includes ident (js ''content'') \<or> js_includes ident (js ''article'') \<or>
          js_includes ident (js ''main-text'') \<or> js_includes ident (js ''mw-content'') \<or>
          js_includes ident (js ''post'') \<or> js_includes ident (js ''entry'')) \<or>
         (js_includes classes (js ''content'') \<or> js_includes classes (js ''article'') \<or>
          js_includes classes (js ''post'') \<or> js_includes classes (js ''entry'') \<or>
          js_includes classes (js ''mw-parser-output'') \<or> js_includes classes (js ''mw-content'')))"

definition sidebarIndicator :: "host \<Rightarrow> element \<Rightarrow> jsstring \<Rightarrow> bool" where
  "sidebarIndicator h a ident =
     (let tag = tagName a;
          classes = (case className a of Some c \<Rightarrow> if c \<noteq> [] then toLowerCase h c else [] | None \<Rightarrow> []);
          rl = toLowerCase h (case role a of Some r \<Rightarrow> r | None \<Rightarrow> [])
      in (tag = js ''NAV'' \<or> tag = js ''ASIDE'' \<or> tag = js ''FOOTER'' \<or> tag = js ''HEADER'') \<or>
         (rl = js ''navigation'' \<or> rl = js ''complementary'' \<or> rl = js ''banner'' \<or>
          rl = js ''contentinfo'' \<or> rl = js ''menu'') \<or>
         (js_includes ident (js ''sidebar'') \<or> js_includes ident (js ''nav'') \<or>
          js_includes ident (js ''menu'') \<or> js_includes ident (js ''footer'') \<or>
          js_includes ident (js ''header'') \<or> js_includes ident (js ''toc'') \<or>
          js_includes ident (js ''widget'') \<or> js_includes ident (js ''prefs'') \<or>
          js_includes ident (js ''toolbar'')) \<or>
         (js_includes classes (js ''sidebar'') \<or> js_includes classes (js ''nav'') \<or>
          js_includes classes (js ''menu'') \<or> js_includes classes (js ''footer'') \<or>
          js_includes classes (js ''header'') \<or> js_includes classes (js ''widget'') \<or>
          js_includes classes (js ''toc'') \<or> js_includes classes (js ''infobox'') \<or>
          js_includes classes (js ''mw-portlet'') \<or> js_includes classes (js ''vector-'')))"

text \<open>
  The loop \<^verbatim>\<open>while (ancestor && depth < 15)\<close> over the chain of ancestors, the parent
  first; it returns \<open>(inMainContent, inSidebar)\<close>, or throws at the first ancestor
  within these 15 levels whose \<^verbatim>\<open>id\<close> is not a string.
\<close>

fun ancestryWalk ::
  "host \<Rightarrow> element list \<Rightarrow> nat \<Rightarrow> bool \<Rightarrow> bool \<Rightarrow> error + bool \<times> bool" where
  "ancestryWalk h [] depth inMainContent inSidebar = Inr (inMainContent, inSidebar)"
| "ancestryWalk h (ancestor # up) depth inMainContent inSidebar =
     (if depth < 15
      then (case lowerId h ancestor of
              Inl e \<Rightarrow> Inl e
            | Inr ident \<Rightarrow>
                ancestryWalk h up (depth + 1)
                  (inMainContent \<or> mainContentIndicator h ancestor ident)
                  (inSidebar \<or> sidebarIndicator h ancestor ident))
      else Inr (inMainContent, inSidebar))"

definition contextScore :: "bool \<times> bool \<Rightarrow> int" where
  "contextScore w =
     (case w of (inMainContent, inSidebar) \<Rightarrow>
        if inMainContent \<and> \<not> inSidebar then 500
        else if inMainContent \<and> inSidebar then 100
        else if inSidebar then - 300
        else 0)"

text \<open>4. Tag type of the parent.\<close>

definition tagScore :: "jsstring \<Rightarrow> int" where
  "tagScore tag =
     (if tag = js ''P'' then 80
      else if tag = js ''H1'' then 70
      else if tag = js ''H2'' then 60
      else if tag = js ''H3'' then 50
      else if tag = js ''H4'' \<or> tag = js ''H5'' \<or> tag = js ''H6'' then 40
      else if tag = js ''LI'' then 30
      else if tag = js ''TD'' \<or> tag = js ''TH'' then 20
      else if tag = js ''BLOCKQUOTE'' \<or> tag = js ''FIGCAPTION'' then 25
      else if tag = js ''SPAN'' then 5
      else if tag = js ''DIV'' then 5
      else if tag = js ''A'' then - 10
      else if tag = js ''LABEL'' then - 30
      else if tag = js ''BUTTON'' then - 50
      else 0)"

text \<open>
  5. Position penalty for elements far from the horizontal centre. The literal
  \<^verbatim>\<open>0.35\<close> denotes the double nearest to it.
\<close>

definition centerPenalty :: "host \<Rightarrow> rect \<Rightarrow> int" where
  "centerPenalty h r =
     (let centerX = dadd (r_left r) (ddiv (r_width r) 2);
          pageCenter = ddiv (innerWidth h) 2;
          distanceFromCenter = \<bar>dsub centerX pageCenter\<bar>
      in if distanceFromCenter > dmul (innerWidth h) (roundDouble (35 / 100)) then - 100 else 0)"

text \<open>
  \<open>calculatePriority h ancestors text\<close>: the score of a text node whose chain of ancestor
  elements is \<open>ancestors\<close> (its \<^verbatim>\<open>parentElement\<close> first; empty when the node has no
  parent element) and whose \<^verbatim>\<open>textContent\<close> is \<open>text\<close>, or the exception of the ancestor
  loop. Nothing before the loop has an effect, so an exception is the whole outcome.
\<close>

definition calculatePriority :: "host \<Rightarrow> element list \<Rightarrow> jsstring \<Rightarrow> error + int" where
  "calculatePriority h ancestors text =
     (case ancestors of
        [] \<Rightarrow> Inr 0
      | parent # up \<Rightarrow>
          (case ancestryWalk h ancestors 0 False False of
             Inl e \<Rightarrow> Inl e
           | Inr w \<Rightarrow>
               Inr (max 0 (viewportScore h (boundingRect parent)
                           + lengthScore (length (trim text))
                           + contextScore w
                           + tagScore (tagName parent)
                           + centerPenalty h (boundingRect parent)))))"

section \<open>Page state\<close>

text \<open>
  Text nodes and elements are named by references. One record holds the module's global
  variables, the part of the DOM that \<^verbatim>\<open>replaceTextNode\<close> and the restore functions read
  and write (the text of every text node, its parent element at that moment, the glow
  and the \<^verbatim>\<open>data-translated\<close> mark of the elements), and two ghost fields: \<open>clock\<close> counts
  the suspension points (\<^verbatim>\<open>await\<close>) passed so far, \<open>trace\<close> lists the observable effects
  in the order they happen.
\<close>

type_synonym noderef = nat

type_synonym elemref = nat

text \<open>A queue item \<^verbatim>\<open>{ id, text, priority }\<close>.\<close>

record item =
  item_id :: int
  item_text :: jsstring
  item_priority :: int

text \<open>
  A registry entry \<^verbatim>\<open>{ node, originalText, translated, translatedText }\<close>; the last two
  are absent (\<open>False\<close>, \<open>None\<close>) until a translation is applied.
\<close>

record entry =
  node :: noderef
  originalText :: jsstring
  translated :: bool
  translatedText :: "jsstring option"

text \<open>
  The DOM below a root: text nodes, elements with their children, and the other kinds
  of node (comments and the like), which carry no text and have no children the
  walker shows.
\<close>

datatype dom = TextNode noderef | Element element "dom list" | OtherNode

text \<open>
  A node reported by the mutation observer, with the chain of ancestors it has when it
  is processed (parent first).
\<close>

datatype addedNode = AddedText noderef "element list" | AddedElement dom "element list" | AddedOther

text \<open>One entry of a Translator response, \<^verbatim>\<open>{ id, text, error? }\<close>.\<close>

record translation =
  t_id :: int
  t_text :: jsstring
  t_error :: "jsstring option"

text \<open>
  What \<^verbatim>\<open>await browserAPI.runtime.sendMessage(...)\<close> gives: it throws (also when the
  response is not an object), or it resolves with an object whose \<^verbatim>\<open>error\<close> and
  \<^verbatim>\<open>translations\<close> fields are as given.
\<close>

datatype response = Throws | Reply "jsstring option" "translation list option"

datatype status =
    AlreadyInProgress
  | ExtractingText
  | NoTranslatableText
  | FoundElements nat
  | TranslatingPercent
  | TranslationCancelled
  | TranslatedSummary nat nat nat
  | TranslationError error

text \<open>
  Observable effects: the status indicator (\<^verbatim>\<open>showStatus(message, isError)\<close>; the
  percentage shown while translating is not modelled, \<open>TranslationError\<close> is the
  message of the outer \<^verbatim>\<open>catch\<close> of \<^verbatim>\<open>translatePage\<close>), a request to the Translator, an
  awaited timer, the console lines of \<^verbatim>\<open>translateBatch\<close> and \<^verbatim>\<open>replaceTextNode\<close>, and the
  handling of a \<^verbatim>\<open>CANCEL_TRANSLATION\<close> message.
\<close>

datatype event =
    ShowStatus status bool
  | SendTranslate "item list" jsstring jsstring
  | SetTimeout nat
  | LogBatchCalled nat
  | LogAttemptFailed nat nat
  | LogAllRetriesFailed nat
  | LogReplaced int
  | LogNodeNotFound int
  | LogReplaceFailed int
  | CancelRequested

record page =
  textNodeMap :: "(int \<times> entry) list"
  translatedNodeSet :: "noderef set"
  translationInProgress :: bool
  translationCancelled :: bool
  nextId :: int
  currentTargetLanguage :: jsstring
  autoTranslateEnabled :: bool
  showGlow :: bool
  mutationObserver :: bool
  pendingNewNodes :: "addedNode list"
  autoTranslateDebounceTimer :: bool
  hasTranslationCache :: bool
  isShowingTranslations :: bool
  pendingTranslationQueue :: "item list"
  scrollListener :: bool
  textContent :: "noderef \<Rightarrow> jsstring"
  parentElement :: "noderef \<Rightarrow> elemref option"
  bareElements :: "elemref set"
  glow :: "elemref set"
  datasetTranslated :: "elemref set"
  clock :: nat
  trace :: "event list"

text \<open>
  \<open>textNodeMap\<close> is a JavaScript \<^verbatim>\<open>Map\<close>: an association list in insertion order, where
  \<^verbatim>\<open>set\<close> (\<open>AList.update\<close>) replaces the value of a key that is present and appends a new
  key at the end, and \<^verbatim>\<open>get\<close> is \<open>map_of\<close>. Assigning \<^verbatim>\<open>textContent\<close> of a text node never
  throws, attached or not. \<open>parentElement s n\<close> is \<^verbatim>\<open>n.parentElement\<close> (\<open>None\<close> for
  \<^verbatim>\<open>null\<close>). \<open>bareElements\<close> holds the elements that have neither \<^verbatim>\<open>style\<close> nor
  \<^verbatim>\<open>dataset\<close>: both come with the interfaces of HTML, SVG and MathML elements, and an
  element of any other namespace implements \<^verbatim>\<open>Element\<close> only. \<open>glow\<close> holds the elements
  whose \<^verbatim>\<open>style.textShadow\<close> the script has set to the glow, \<open>datasetTranslated\<close> those it
  has marked with \<^verbatim>\<open>dataset.translated\<close>. \<open>mutationObserver\<close>,
  \<open>autoTranslateDebounceTimer\<close> and \<open>scrollListener\<close> say whether the observer, the timer
  and the scroll listener are set.
\<close>

definition emit :: "event \<Rightarrow> page \<Rightarrow> page" where
  "emit e s = s\<lparr>trace := trace s @ [e]\<rparr>"

definition showStatus :: "status \<Rightarrow> bool \<Rightarrow> page \<Rightarrow> page" where
  "showStatus message isError s = emit (ShowStatus message isError) s"

section \<open>Text extractor\<close>

definition SKIP_TAGS :: "jsstring set" where
  "SKIP_TAGS = set (map js
     [''SCRIPT'', ''STYLE'', ''NOSCRIPT'', ''IFRAME'', ''OBJECT'', ''EMBED'',
      ''SVG'', ''CANVAS'', ''VIDEO'', ''AUDIO'', ''CODE'', ''PRE'', ''KBD'',
      ''INPUT'', ''TEXTAREA'', ''SELECT'', ''BUTTON''])"

definition MIN_TEXT_LENGTH :: nat where
  "MIN_TEXT_LENGTH = 2"

definition shouldSkipElement :: "element \<Rightarrow> bool" where
  "shouldSkipElement e =
     (if tagName e = [] then True
      else if tagName e \<in> SKIP_TAGS then True
      else if isContentEditable e then True
      else if translate e = Some (js ''no'') then True
      else if elem_id e = JsString (js ''llm-translator-status'') then True
      else False)"

definition isTranslatableText :: "host \<Rightarrow> jsstring \<Rightarrow> bool" where
  "isTranslatableText h text =
     (if text = [] then False
      else if length (trim text) < MIN_TEXT_LENGTH then False
      else hasLetters h (trim text))"

definition isNodeProcessed :: "page \<Rightarrow> noderef \<Rightarrow> bool" where
  "isNodeProcessed s n = (n \<in> translatedNodeSet s)"

text \<open>
  The tree walker shows the text nodes below the root (never the root itself) in
  document order; each comes with its chain of ancestors.
\<close>

fun textNodesOf :: "element list \<Rightarrow> dom \<Rightarrow> (noderef \<times> element list) list" where
  "textNodesOf ancestors (TextNode n) = [(n, ancestors)]"
| "textNodesOf ancestors (Element e children) = concat (map (textNodesOf (e # ancestors)) children)"
| "textNodesOf ancestors OtherNode = []"

definition walkerNodes :: "element list \<Rightarrow> dom \<Rightarrow> (noderef \<times> element list) list" where
  "walkerNodes ancestors rootNode =
     (case rootNode of
        Element e children \<Rightarrow> concat (map (textNodesOf (e # ancestors)) children)
      | _ \<Rightarrow> [])"

definition acceptNode :: "host \<Rightarrow> bool \<Rightarrow> page \<Rightarrow> noderef \<Rightarrow> element list \<Rightarrow> bool" where
  "acceptNode h onlyNew s n ancestors =
     (if onlyNew \<and> isNodeProcessed s n then False
      else case ancestors of
        [] \<Rightarrow> False
      | parent # up \<Rightarrow>
          if shouldSkipElement parent then False
          else if \<not> isTranslatableText h (textContent s n) then False
          else if display parent = js ''none'' \<or> visibility parent = js ''hidden'' then False
          else True)"

text \<open>
  The body of \<^verbatim>\<open>while (node = walker.nextNode())\<close>: \<^verbatim>\<open>nextId++\<close>, then the priority, then
  the registry entry and the item. When \<^verbatim>\<open>calculatePriority\<close> throws, the counter has
  advanced and nothing else has happened. Every function of the extractor returns the
  state together with its outcome: the state is what the exception leaves behind.
\<close>

definition registerNode ::
  "host \<Rightarrow> noderef \<Rightarrow> element list \<Rightarrow> page \<Rightarrow> (error + item) \<times> page" where
  "registerNode h n ancestors s =
     (let ident = nextId s;
          s1 = s\<lparr>nextId := ident + 1\<rparr>;
          text = trim (textContent s n)
      in case calculatePriority h ancestors (textContent s n) of
           Inl e \<Rightarrow> (Inl e, s1)
         | Inr priority \<Rightarrow>
             (Inr \<lparr>item_id = ident, item_text = text, item_priority = priority\<rparr>,
              s1\<lparr>textNodeMap := AList.update ident
                   \<lparr>node = n, originalText = textContent s n, translated = False, translatedText = None\<rparr>
                   (textNodeMap s)\<rparr>))"

text \<open>
  The loop itself: the filter runs when the walker reaches the node, on the state at
  that moment.
\<close>

fun walkLoop ::
  "host \<Rightarrow> bool \<Rightarrow> (noderef \<times> element list) list \<Rightarrow> page \<Rightarrow> (error + item list) \<times> page" where
  "walkLoop h onlyNew [] s = (Inr [], s)"
| "walkLoop h onlyNew ((n, ancestors) # rest) s =
     (if acceptNode h onlyNew s n ancestors
      then (case registerNode h n ancestors s of
              (Inl e, s') \<Rightarrow> (Inl e, s')
            | (Inr it, s') \<Rightarrow>
                (case walkLoop h onlyNew rest s' of
                   (Inl e, s'') \<Rightarrow> (Inl e, s'')
                 | (Inr items, s'') \<Rightarrow> (Inr (it # items), s'')))
      else walkLoop h onlyNew rest s)"

text \<open>
  \<^verbatim>\<open>textItems.sort((a, b) => b.priority - a.priority)\<close>: a stable sort, highest priority
  first.
\<close>

definition sortByPriority :: "item list \<Rightarrow> item list" where
  "sortByPriority items = sort_key (\<lambda>it. - item_priority it) items"

definition extractTextNodes ::
  "host \<Rightarrow> dom \<Rightarrow> element list \<Rightarrow> bool \<Rightarrow> page \<Rightarrow> (error + item list) \<times> page" where
  "extractTextNodes h rootNode ancestors onlyNew s =
     (let s1 = (if \<not> onlyNew
                then s\<lparr>textNodeMap := [], translatedNodeSet := {}, nextId := 0\<rparr>
                else s)
      in case walkLoop h onlyNew (walkerNodes ancestors rootNode) s1 of
           (Inl e, s2) \<Rightarrow> (Inl e, s2)
         | (Inr textItems, s2) \<Rightarrow> (Inr (sortByPriority textItems), s2))"

text \<open>
  The loop \<^verbatim>\<open>for (const node of addedNodes)\<close> of \<^verbatim>\<open>extractNewTextNodes\<close>, which has the
  body of the walker loop for an added text node and calls \<^verbatim>\<open>extractTextNodes(node, true)\<close>
  for an added element.
\<close>

fun newNodesLoop :: "host \<Rightarrow> addedNode list \<Rightarrow> page \<Rightarrow> (error + item list) \<times> page" where
  "newNodesLoop h [] s = (Inr [], s)"
| "newNodesLoop h (AddedText n ancestors # rest) s =
     (if \<not> isNodeProcessed s n \<and> isTranslatableText h (textContent s n)
      then (case ancestors of
              [] \<Rightarrow> newNodesLoop h rest s
            | parent # up \<Rightarrow>
                if \<not> shouldSkipElement parent
                then (case registerNode h n ancestors s of
                        (Inl e, s') \<Rightarrow> (Inl e, s')
                      | (Inr it, s') \<Rightarrow>
                          (case newNodesLoop h rest s' of
                             (Inl e, s'') \<Rightarrow> (Inl e, s'')
                           | (Inr items, s'') \<Rightarrow> (Inr (it # items), s'')))
                else newNodesLoop h rest s)
      else newNodesLoop h rest s)"
| "newNodesLoop h (AddedElement rootNode ancestors # rest) s =
     (case extractTextNodes h rootNode ancestors True s of
        (Inl e, s') \<Rightarrow> (Inl e, s')
      | (Inr items, s') \<Rightarrow>
          (case newNodesLoop h rest s' of
             (Inl e, s'') \<Rightarrow> (Inl e, s'')
           | (Inr items', s'') \<Rightarrow> (Inr (items @ items'), s'')))"
| "newNodesLoop h (AddedOther # rest) s = newNodesLoop h rest s"

definition extractNewTextNodes ::
  "host \<Rightarrow> addedNode list \<Rightarrow> page \<Rightarrow> (error + item list) \<times> page" where
  "extractNewTextNodes h addedNodes s =
     (case newNodesLoop h addedNodes s of
        (Inl e, s') \<Rightarrow> (Inl e, s')
      | (Inr textItems, s') \<Rightarrow> (Inr (sortByPriority textItems), s'))"

section \<open>Node registry: replace and restore\<close>

text \<open>
  The end of the \<^verbatim>\<open>try\<close> block of \<^verbatim>\<open>replaceTextNode\<close>: the entry is marked and caches the
  translated text, the node joins the processed set, the function returns true.
\<close>

definition markTranslated :: "int \<Rightarrow> entry \<Rightarrow> jsstring \<Rightarrow> page \<Rightarrow> bool \<times> page" where
  "markTranslated ident en translatedTxt s =
     (True,
      emit (LogReplaced ident)
        (s\<lparr>textNodeMap := AList.update ident
              (en\<lparr>translated := True, translatedText := Some translatedTxt\<rparr>) (textNodeMap s),
           translatedNodeSet := insert (node en) (translatedNodeSet s)\<rparr>))"

text \<open>
  \<^verbatim>\<open>replaceTextNode(id, translatedText)\<close>. Inside the \<^verbatim>\<open>try\<close> block the text is written
  first; then, when the node has a parent element, \<^verbatim>\<open>parent.style.textShadow\<close> is set if
  the glow is on and \<^verbatim>\<open>parent.dataset.translated\<close> is set in any case. On an element
  without \<^verbatim>\<open>style\<close> and \<^verbatim>\<open>dataset\<close> the first of these assignments that is reached throws:
  the \<^verbatim>\<open>catch\<close> logs the failure and returns false, and the text written before stays.
\<close>

definition replaceTextNode :: "int \<Rightarrow> jsstring \<Rightarrow> page \<Rightarrow> bool \<times> page" where
  "replaceTextNode ident translatedTxt s =
     (case map_of (textNodeMap s) ident of
        None \<Rightarrow> (False, emit (LogNodeNotFound ident) s)
      | Some en \<Rightarrow>
          (let s1 = s\<lparr>textContent := (textContent s)
                        (node en := leadingSpace (originalText en) @ translatedTxt
                                    @ trailingSpace (originalText en))\<rparr>
           in case parentElement s1 (node en) of
                None \<Rightarrow> markTranslated ident en translatedTxt s1
              | Some parent \<Rightarrow>
                  if parent \<in> bareElements s1 then (False, emit (LogReplaceFailed ident) s1)
                  else markTranslated ident en translatedTxt
                         (s1\<lparr>glow := (if showGlow s1 then insert parent (glow s1) else glow s1),
                             datasetTranslated := insert parent (datasetTranslated s1)\<rparr>)))"

definition stopAutoTranslate :: "page \<Rightarrow> page" where
  "stopAutoTranslate s =
     s\<lparr>autoTranslateEnabled := False, mutationObserver := False,
       autoTranslateDebounceTimer := False, pendingNewNodes := []\<rparr>"

definition startAutoTranslate :: "jsstring \<Rightarrow> page \<Rightarrow> page" where
  "startAutoTranslate targetLanguage s =
     s\<lparr>autoTranslateEnabled := True, currentTargetLanguage := targetLanguage,
       pendingNewNodes := [], mutationObserver := True\<rparr>"

text \<open>
  \<^verbatim>\<open>for (const [id, entry] of textNodeMap)\<close> in \<^verbatim>\<open>restoreOriginalText\<close>. The assignment
  in the \<^verbatim>\<open>try\<close> block never throws.
\<close>

fun restoreOriginalLoop :: "(int \<times> entry) list \<Rightarrow> page \<Rightarrow> page" where
  "restoreOriginalLoop [] s = s"
| "restoreOriginalLoop ((ident, en) # rest) s =
     restoreOriginalLoop rest
       (if translated en
        then s\<lparr>textContent := (textContent s)(node en := originalText en),
               translatedNodeSet := translatedNodeSet s - {node en}\<rparr>
        else s)"

definition restoreOriginalText :: "page \<Rightarrow> page" where
  "restoreOriginalText s =
     stopAutoTranslate ((restoreOriginalLoop (textNodeMap s) s)\<lparr>isShowingTranslations := False\<rparr>)"

text \<open>
  The loop of \<^verbatim>\<open>restoreCachedTranslations\<close>; the condition
  \<^verbatim>\<open>entry.translatedText && entry.originalText !== entry.translatedText\<close> needs a cached
  text that is not empty.
\<close>

fun restoreCachedLoop :: "(int \<times> entry) list \<Rightarrow> nat \<Rightarrow> page \<Rightarrow> nat \<times> page" where
  "restoreCachedLoop [] restoredCount s = (restoredCount, s)"
| "restoreCachedLoop ((ident, en) # rest) restoredCount s =
     (case translatedText en of
        None \<Rightarrow> restoreCachedLoop rest restoredCount s
      | Some t \<Rightarrow>
          if t \<noteq> [] \<and> originalText en \<noteq> t
          then restoreCachedLoop rest (restoredCount + 1)
                 (s\<lparr>textContent := (textContent s)(node en := t),
                    textNodeMap := map (\<lambda>(k, e). if k = ident then (k, e\<lparr>translated := True\<rparr>) else (k, e))
                                       (textNodeMap s),
                    translatedNodeSet := insert (node en) (translatedNodeSet s)\<rparr>)
          else restoreCachedLoop rest restoredCount s)"

definition restoreCachedTranslations :: "page \<Rightarrow> bool \<times> page" where
  "restoreCachedTranslations s =
     (if \<not> hasTranslationCache s then (False, s)
      else case restoreCachedLoop (textNodeMap s) 0 s of
             (restoredCount, s') \<Rightarrow> (restoredCount > 0, s'\<lparr>isShowingTranslations := True\<rparr>))"

section \<open>Translation queue engine\<close>

text \<open>JavaScript truthiness of an optional string: absent and \<^verbatim>\<open>''\<close> are falsy.\<close>

definition truthy :: "jsstring option \<Rightarrow> bool" where
  "truthy v = (case v of None \<Rightarrow> False | Some x \<Rightarrow> x \<noteq> [])"

text \<open>The \<^verbatim>\<open>CANCEL_TRANSLATION\<close> message handler.\<close>

definition onCancelTranslation :: "page \<Rightarrow> page" where
  "onCancelTranslation s =
     stopAutoTranslate
       ((emit CancelRequested s)\<lparr>translationCancelled := True, pendingTranslationQueue := []\<rparr>)"

text \<open>
  A suspension point (\<^verbatim>\<open>await\<close>). The code runs on one event loop, so other handlers
  run only while a task is suspended. \<open>cancelAt k\<close> says that a \<^verbatim>\<open>CANCEL_TRANSLATION\<close>
  message is handled during the suspension numbered \<open>k\<close>. The other handlers are not
  part of the interleaving: none of them writes \<open>translationCancelled\<close>, and the only
  other write to the pending queue is the re-sorting after a scroll; a start request
  that arrives during a run takes the busy branch of \<^verbatim>\<open>translatePage\<close>, and
  \<^verbatim>\<open>translatePendingNodes\<close> returns at once while \<open>translationInProgress\<close> is set.
\<close>

definition suspend :: "(nat \<Rightarrow> bool) \<Rightarrow> page \<Rightarrow> page" where
  "suspend cancelAt s =
     (let s1 = s\<lparr>clock := clock s + 1\<rparr>
      in if cancelAt (clock s) then onCancelTranslation s1 else s1)"

text \<open>\<^verbatim>\<open>textItems.find(item => item.id === t.id)\<close>, as the list of what is pushed.\<close>

definition findItem :: "item list \<Rightarrow> int \<Rightarrow> item list" where
  "findItem textItems ident =
     (case find (\<lambda>it. item_id it = ident) textItems of Some original \<Rightarrow> [original] | None \<Rightarrow> [])"

text \<open>The loop \<^verbatim>\<open>for (const t of (translations || []))\<close>.\<close>

fun processTranslations ::
  "item list \<Rightarrow> translation list \<Rightarrow> nat \<Rightarrow> item list \<Rightarrow> int set \<Rightarrow> page
   \<Rightarrow> nat \<times> item list \<times> int set \<times> page" where
  "processTranslations textItems [] appliedCount failedItems receivedIds s =
     (appliedCount, failedItems, receivedIds, s)"
| "processTranslations textItems (t # ts) appliedCount failedItems receivedIds s =
     (if \<not> truthy (t_error t) \<and> t_text t \<noteq> []
      then (case replaceTextNode (t_id t) (t_text t) s of
              (ok, s') \<Rightarrow>
                if ok
                then processTranslations textItems ts (appliedCount + 1) failedItems
                       (insert (t_id t) receivedIds) s'
                else processTranslations textItems ts appliedCount
                       (failedItems @ findItem textItems (t_id t)) (insert (t_id t) receivedIds) s')
      else if truthy (t_error t)
      then processTranslations textItems ts appliedCount
             (failedItems @ findItem textItems (t_id t)) (insert (t_id t) receivedIds) s
      else processTranslations textItems ts appliedCount failedItems (insert (t_id t) receivedIds) s)"

record batchResult =
  applied :: nat
  failed :: "item list"

definition processResponse :: "item list \<Rightarrow> translation list \<Rightarrow> page \<Rightarrow> batchResult \<times> page" where
  "processResponse textItems translations s =
     (case processTranslations textItems translations 0 [] {} s of
        (appliedCount, failedItems, receivedIds, s') \<Rightarrow>
          (\<lparr>applied = appliedCount,
            failed = failedItems @ filter (\<lambda>it. item_id it \<notin> receivedIds) textItems\<rparr>, s'))"

text \<open>
  A call fails at the transport level when \<^verbatim>\<open>sendMessage\<close> throws or the response has a
  truthy \<^verbatim>\<open>error\<close>.
\<close>

definition transportFailure :: "response \<Rightarrow> bool" where
  "transportFailure r = (case r of Throws \<Rightarrow> True | Reply err translations \<Rightarrow> truthy err)"

definition translationsOf :: "response \<Rightarrow> translation list" where
  "translationsOf r = (case r of Reply err (Some ts) \<Rightarrow> ts | _ \<Rightarrow> [])"

text \<open>
  The loop \<^verbatim>\<open>for (let attempt = 0; attempt < retries; attempt++)\<close>. \<open>translator k\<close> is
  what the request sent at clock \<open>k\<close> resolves to.
\<close>

function attemptLoop ::
  "(nat \<Rightarrow> bool) \<Rightarrow> (nat \<Rightarrow> response) \<Rightarrow> item list \<Rightarrow> jsstring \<Rightarrow> jsstring \<Rightarrow> nat \<Rightarrow> nat \<Rightarrow> page
   \<Rightarrow> batchResult \<times> page" where
  "attemptLoop cancelAt translator textItems targetLanguage pageLang retries attempt s =
     (if attempt < retries
      then (let response = translator (clock s);
                s1 = suspend cancelAt (emit (SendTranslate textItems targetLanguage pageLang) s)
            in if transportFailure response
               then attemptLoop cancelAt translator textItems targetLanguage pageLang retries (attempt + 1)
                      (let s2 = emit (LogAttemptFailed (attempt + 1) retries) s1
                       in if attempt < retries - 1
                          then suspend cancelAt (emit (SetTimeout (500 * (attempt + 1))) s2)
                          else s2)
               else processResponse textItems (translationsOf response) s1)
      else (\<lparr>applied = 0, failed = textItems\<rparr>, emit (LogAllRetriesFailed (length textItems)) s))"
  by pat_completeness auto
termination
  by (relation "measure (\<lambda>(cancelAt, translator, textItems, targetLanguage, pageLang, retries, attempt, s). retries - attempt)") auto

declare attemptLoop.simps [simp del]

text \<open>
  \<^verbatim>\<open>(sourceLanguage && sourceLanguage !== 'auto') ? sourceLanguage : getPageLanguage()\<close>.
\<close>

definition effectivePageLanguage :: "host \<Rightarrow> jsstring \<Rightarrow> jsstring" where
  "effectivePageLanguage h sourceLanguage =
     (if sourceLanguage \<noteq> [] \<and> sourceLanguage \<noteq> js ''auto'' then sourceLanguage else pageLanguage h)"

definition translateBatch ::
  "host \<Rightarrow> (nat \<Rightarrow> bool) \<Rightarrow> (nat \<Rightarrow> response) \<Rightarrow> item list \<Rightarrow> jsstring \<Rightarrow> jsstring \<Rightarrow> nat \<Rightarrow> page
   \<Rightarrow> batchResult \<times> page" where
  "translateBatch h cancelAt translator textItems targetLanguage sourceLanguage retries s =
     (if textItems = [] then (\<lparr>applied = 0, failed = []\<rparr>, s)
      else attemptLoop cancelAt translator textItems targetLanguage
             (effectivePageLanguage h sourceLanguage) retries 0
             (emit (LogBatchCalled (length textItems)) s))"

subsection \<open>What a batch leaves alone\<close>

text \<open>The events that the attempt loop itself emits.\<close>

fun attemptEvent :: "event \<Rightarrow> bool" where
  "attemptEvent (SendTranslate textItems targetLanguage sourceLanguage) = True"
| "attemptEvent (SetTimeout ms) = True"
| "attemptEvent (LogAttemptFailed attempt retries) = True"
| "attemptEvent (LogAllRetriesFailed n) = True"
| "attemptEvent e = False"

lemma processTranslations_rel:
  assumes r: "\<And>s. R s s" and t: "\<And>a b c. R a b \<Longrightarrow> R b c \<Longrightarrow> R a c"
    and rep: "\<And>i t s. R s (snd (replaceTextNode i t s))"
  shows "R s (snd (snd (snd (processTranslations textItems ts a f rcv s))))"
proof (induction ts arbitrary: a f rcv s)
  case Nil
  show ?case by (simp add: r)
next
  case (Cons x ts)
  show ?case
  proof (cases "\<not> truthy (t_error x) \<and> t_text x \<noteq> []")
    case True
    obtain ok s' where rt: "replaceTextNode (t_id x) (t_text x) s = (ok, s')" by (cases "replaceTextNode (t_id x) (t_text x) s")
    have "R s s'" using rep[of s "t_id x" "t_text x"] rt by simp
    then show ?thesis using True rt Cons.IH t by (cases ok) auto
  next
    case False
    then show ?thesis using Cons.IH by auto
  qed
qed

lemma processResponse_rel:
  assumes r: "\<And>s. R s s" and t: "\<And>a b c. R a b \<Longrightarrow> R b c \<Longrightarrow> R a c"
    and rep: "\<And>i t s. R s (snd (replaceTextNode i t s))"
  shows "R s (snd (processResponse textItems ts s))"
proof -
  have "R s (snd (snd (snd (processTranslations textItems ts 0 [] {} s))))"
    by (rule processTranslations_rel[where R = R, OF r t rep])
  then show ?thesis
    by (cases "processTranslations textItems ts 0 [] {} s") (simp add: processResponse_def)
qed

lemma attemptLoop_rel:
  assumes r: "\<And>s. R s s" and t: "\<And>a b c. R a b \<Longrightarrow> R b c \<Longrightarrow> R a c"
    and rep: "\<And>i t s. R s (snd (replaceTextNode i t s))"
    and em: "\<And>e s. attemptEvent e \<Longrightarrow> R s (emit e s)"
    and su: "\<And>s. R s (suspend cancelAt s)"
  shows "R s (snd (attemptLoop cancelAt translator textItems targetLanguage pageLang retries attempt s))"
  using r t rep em su
proof (induction cancelAt translator textItems targetLanguage pageLang retries attempt s rule: attemptLoop.induct)
  case (1 cancelAt translator textItems targetLanguage pageLang retries attempt s)
  note r = "1.prems"(1) and t = "1.prems"(2) and rep = "1.prems"(3) and em = "1.prems"(4) and su = "1.prems"(5)
  have emsu: "R x (suspend cancelAt (emit e x))" if "attemptEvent e" for e x
    by (rule t[OF em[OF that] su])
  show ?case
  proof (cases "attempt < retries")
    case False
    then show ?thesis by (subst attemptLoop.simps) (simp add: em)
  next
    case True
    define s1 where "s1 = suspend cancelAt (emit (SendTranslate textItems targetLanguage pageLang) s)"
    have s1: "R s s1" unfolding s1_def by (rule emsu) simp
    show ?thesis
    proof (cases "transportFailure (translator (clock s))")
      case False
      have eq: "attemptLoop cancelAt translator textItems targetLanguage pageLang retries attempt s
                = processResponse textItems (translationsOf (translator (clock s))) s1"
        using True False by (subst attemptLoop.simps) (simp add: s1_def Let_def)
      have "R s1 (snd (processResponse textItems (translationsOf (translator (clock s))) s1))"
        by (rule processResponse_rel[where R = R, OF r t rep])
      then show ?thesis unfolding eq using s1 t by blast
    next
      case tf: True
      define s2 where "s2 = emit (LogAttemptFailed (attempt + 1) retries) s1"
      define s3 where "s3 = (if attempt < retries - 1
                          then suspend cancelAt (emit (SetTimeout (500 * (attempt + 1))) s2)
                          else s2)"
      have eq: "attemptLoop cancelAt translator textItems targetLanguage pageLang retries attempt s
                = attemptLoop cancelAt translator textItems targetLanguage pageLang retries (attempt + 1) s3"
        using True tf by (subst attemptLoop.simps) (simp add: s1_def s2_def s3_def Let_def)
      have "R s1 s2" unfolding s2_def by (rule em) simp
      moreover have "R s2 s3" unfolding s3_def using emsu[of "SetTimeout (500 * (attempt + 1))" s2] r by simp
      ultimately have "R s s3" using s1 t by blast
      moreover have "R s3 (snd (attemptLoop cancelAt translator textItems targetLanguage pageLang retries (attempt + 1) s3))"
        using "1.IH"[OF True refl refl tf r t rep em su] unfolding s3_def s2_def s1_def Let_def by simp
      ultimately show ?thesis unfolding eq using t by blast
    qed
  qed
qed

lemma translateBatch_rel:
  assumes r: "\<And>s. R s s" and t: "\<And>a b c. R a b \<Longrightarrow> R b c \<Longrightarrow> R a c"
    and rep: "\<And>i t s. R s (snd (replaceTextNode i t s))"
    and em: "\<And>e s. attemptEvent e \<Longrightarrow> R s (emit e s)"
    and su: "\<And>s. R s (suspend cancelAt s)"
    and bc: "textItems \<noteq> [] \<Longrightarrow> R s (emit (LogBatchCalled (length textItems)) s)"
  shows "R s (snd (translateBatch h cancelAt translator textItems targetLanguage sourceLanguage retries s))"
proof (cases "textItems = []")
  case True
  then show ?thesis by (simp add: translateBatch_def r)
next
  case False
  define pl where "pl = effectivePageLanguage h sourceLanguage"
  have "R (emit (LogBatchCalled (length textItems)) s)
          (snd (attemptLoop cancelAt translator textItems targetLanguage pl
             retries 0 (emit (LogBatchCalled (length textItems)) s)))"
    by (rule attemptLoop_rel[where R = R, OF r t rep em su])
  then have "R s (snd (attemptLoop cancelAt translator textItems targetLanguage pl
             retries 0 (emit (LogBatchCalled (length textItems)) s)))"
    using bc[OF False] t by blast
  then show ?thesis using False by (simp add: translateBatch_def pl_def)
qed


lemma replaceTextNode_queue:
  "pendingTranslationQueue (snd (replaceTextNode i t s)) = pendingTranslationQueue s"
  by (simp add: replaceTextNode_def markTranslated_def emit_def Let_def split: option.split)

lemma suspend_queue:
  "length (pendingTranslationQueue (suspend cancelAt s)) \<le> length (pendingTranslationQueue s)"
  by (simp add: suspend_def onCancelTranslation_def stopAutoTranslate_def emit_def Let_def)

lemma translateBatch_queue:
  "length (pendingTranslationQueue
     (snd (translateBatch h cancelAt translator textItems targetLanguage sourceLanguage retries s)))
   \<le> length (pendingTranslationQueue s)"
  by (rule translateBatch_rel
        [where R = "\<lambda>s s'. length (pendingTranslationQueue s') \<le> length (pendingTranslationQueue s)"])
     (simp_all add: replaceTextNode_queue suspend_queue emit_def)

subsection \<open>The run: translatePage\<close>

text \<open>
  The drain loop \<^verbatim>\<open>while (pendingTranslationQueue.length > 0 && !translationCancelled)\<close>
  with \<open>batchSize = 8\<close>; it returns \<open>(totalApplied, failedItems)\<close> and the state.
  \<^verbatim>\<open>translateBatch\<close> returns a result on every path, so the \<^verbatim>\<open>catch\<close> around the call is
  never entered.
\<close>

function drainLoop ::
  "host \<Rightarrow> (nat \<Rightarrow> bool) \<Rightarrow> (nat \<Rightarrow> response) \<Rightarrow> jsstring \<Rightarrow> jsstring \<Rightarrow> nat \<Rightarrow> item list \<Rightarrow> page
   \<Rightarrow> nat \<times> item list \<times> page" where
  "drainLoop h cancelAt translator targetLanguage sourceLanguage totalApplied failedItems s =
     (if pendingTranslationQueue s \<noteq> [] \<and> \<not> translationCancelled s
      then (case translateBatch h cancelAt translator (take 8 (pendingTranslationQueue s))
                   targetLanguage sourceLanguage 3
                   (showStatus TranslatingPercent False
                      (s\<lparr>pendingTranslationQueue := drop 8 (pendingTranslationQueue s)\<rparr>)) of
              (result, s') \<Rightarrow>
                if translationCancelled s'
                then (totalApplied + applied result, failedItems @ failed result,
                      showStatus TranslationCancelled False s')
                else drainLoop h cancelAt translator targetLanguage sourceLanguage
                       (totalApplied + applied result) (failedItems @ failed result) s')
      else (totalApplied, failedItems, s))"
  by pat_completeness auto
termination
proof (relation "measure (\<lambda>(h, cancelAt, translator, targetLanguage, sourceLanguage, totalApplied, failedItems, s).
                    length (pendingTranslationQueue s))", goal_cases)
  case 1
  show ?case by simp
next
  case (2 h cancelAt translator targetLanguage sourceLanguage totalApplied failedItems s x y)
  define s0 where "s0 = showStatus TranslatingPercent False
                      (s\<lparr>pendingTranslationQueue := drop 8 (pendingTranslationQueue s)\<rparr>)"
  have "y = snd (translateBatch h cancelAt translator (take 8 (pendingTranslationQueue s))
                   targetLanguage sourceLanguage 3 s0)"
    using 2(2) unfolding s0_def by (metis snd_conv)
  then have "length (pendingTranslationQueue y) \<le> length (pendingTranslationQueue s0)"
    using translateBatch_queue by simp
  moreover have "length (pendingTranslationQueue s0) < length (pendingTranslationQueue s)"
    using 2(1) by (simp add: s0_def showStatus_def emit_def)
  ultimately show ?case by simp
qed

declare drainLoop.simps [simp del]

text \<open>
  The retry phase. \<open>retryBatches\<close> is the inner loop
  \<^verbatim>\<open>for (let i = 0; i < itemsToRetry.length && !translationCancelled; i += retryBatchSize)\<close>
  with \<open>retryBatchSize = 4\<close> and one attempt per batch.
\<close>

function retryBatches ::
  "host \<Rightarrow> (nat \<Rightarrow> bool) \<Rightarrow> (nat \<Rightarrow> response) \<Rightarrow> jsstring \<Rightarrow> jsstring \<Rightarrow> item list \<Rightarrow> nat \<Rightarrow> nat
   \<Rightarrow> item list \<Rightarrow> page \<Rightarrow> nat \<times> item list \<times> page" where
  "retryBatches h cancelAt translator targetLanguage sourceLanguage itemsToRetry i totalApplied failedItems s =
     (if i < length itemsToRetry \<and> \<not> translationCancelled s
      then (case translateBatch h cancelAt translator (take 4 (drop i itemsToRetry))
                   targetLanguage sourceLanguage 1 s of
              (result, s') \<Rightarrow>
                retryBatches h cancelAt translator targetLanguage sourceLanguage itemsToRetry (i + 4)
                  (totalApplied + applied result) (failedItems @ failed result) s')
      else (totalApplied, failedItems, s))"
  by pat_completeness auto
termination
  by (relation "measure (\<lambda>(h, cancelAt, translator, targetLanguage, sourceLanguage, itemsToRetry, i,
                           totalApplied, failedItems, s). length itemsToRetry - i)") auto

declare retryBatches.simps [simp del]

text \<open>
  The outer loop
  \<^verbatim>\<open>while (failedItems.length > 0 && retryAttempts < maxRetries && !translationCancelled)\<close>
  with \<open>maxRetries = 2\<close>.
\<close>

function retryRounds ::
  "host \<Rightarrow> (nat \<Rightarrow> bool) \<Rightarrow> (nat \<Rightarrow> response) \<Rightarrow> jsstring \<Rightarrow> jsstring \<Rightarrow> nat \<Rightarrow> nat \<Rightarrow> item list \<Rightarrow> page
   \<Rightarrow> nat \<times> item list \<times> page" where
  "retryRounds h cancelAt translator targetLanguage sourceLanguage retryAttempts totalApplied failedItems s =
     (if failedItems \<noteq> [] \<and> retryAttempts < 2 \<and> \<not> translationCancelled s
      then (case retryBatches h cancelAt translator targetLanguage sourceLanguage failedItems 0 totalApplied []
                   (suspend cancelAt
                      (emit (SetTimeout (500 * (retryAttempts + 1)))
                         (showStatus TranslatingPercent False s))) of
              (totalApplied', failedItems', s') \<Rightarrow>
                retryRounds h cancelAt translator targetLanguage sourceLanguage (retryAttempts + 1)
                  totalApplied' failedItems' s')
      else (totalApplied, failedItems, s))"
  by pat_completeness auto
termination
  by (relation "measure (\<lambda>(h, cancelAt, translator, targetLanguage, sourceLanguage, retryAttempts,
                           totalApplied, failedItems, s). 2 - retryAttempts)") auto

declare retryRounds.simps [simp del]

text \<open>
  What follows the retry phase inside \<^verbatim>\<open>if (!translationCancelled)\<close>: the summary, the
  cache flags and auto-translate. The timers that update and hide the status later are
  not modelled.
\<close>

definition completeRun ::
  "host \<Rightarrow> (nat \<Rightarrow> bool) \<Rightarrow> (nat \<Rightarrow> response) \<Rightarrow> jsstring \<Rightarrow> jsstring \<Rightarrow> bool \<Rightarrow> nat \<Rightarrow> nat \<Rightarrow> item list
   \<Rightarrow> page \<Rightarrow> page" where
  "completeRun h cancelAt translator targetLanguage sourceLanguage enableAutoTranslate totalItems
     totalApplied failedItems s =
     (case retryRounds h cancelAt translator targetLanguage sourceLanguage 0 totalApplied failedItems s of
        (totalApplied', failedItems', s1) \<Rightarrow>
          (let s2 = (if totalApplied' > 0
                     then s1\<lparr>hasTranslationCache := True, isShowingTranslations := True\<rparr>
                     else s1);
               s3 = showStatus (TranslatedSummary totalApplied' totalItems (length failedItems')) False s2
           in if enableAutoTranslate then startAutoTranslate targetLanguage s3 else s3))"

text \<open>The \<^verbatim>\<open>finally\<close> block of \<^verbatim>\<open>translatePage\<close>.\<close>

definition finishRun :: "page \<Rightarrow> page" where
  "finishRun s =
     s\<lparr>translationInProgress := False, translationCancelled := False,
       pendingTranslationQueue := [], scrollListener := False\<rparr>"

text \<open>
  \<^verbatim>\<open>translatePage(targetLanguage, sourceLanguage, enableAutoTranslate)\<close> on a document
  whose \<^verbatim>\<open>body\<close> is \<open>body\<close>, below the ancestors \<open>bodyAncestors\<close>. The function
  returns the state when the promise settles. An exception of the extraction reaches
  the outer \<^verbatim>\<open>catch\<close>, which shows it as an error; \<^verbatim>\<open>translateBatch\<close> returns on every
  path. The \<^verbatim>\<open>finally\<close> block runs on every path but the busy one.
\<close>

definition translatePage ::
  "host \<Rightarrow> (nat \<Rightarrow> bool) \<Rightarrow> (nat \<Rightarrow> response) \<Rightarrow> dom \<Rightarrow> element list \<Rightarrow> jsstring \<Rightarrow> jsstring \<Rightarrow> bool
   \<Rightarrow> page \<Rightarrow> page" where
  "translatePage h cancelAt translator body bodyAncestors targetLanguage sourceLanguage enableAutoTranslate s =
     (if translationInProgress s then showStatus AlreadyInProgress True s
      else (case extractTextNodes h body bodyAncestors False
                   ((showStatus ExtractingText False
                       (s\<lparr>currentTargetLanguage := targetLanguage, translationInProgress := True,
                          translationCancelled := False\<rparr>))\<lparr>scrollListener := True\<rparr>) of
              (Inl e, s1) \<Rightarrow> finishRun (showStatus (TranslationError e) True s1)
            | (Inr textItems, s1) \<Rightarrow>
                if textItems = []
                then finishRun ((showStatus NoTranslatableText True s1)\<lparr>translationInProgress := False\<rparr>)
                else (case drainLoop h cancelAt translator targetLanguage sourceLanguage 0 []
                             (showStatus (FoundElements (length textItems)) False
                                (s1\<lparr>pendingTranslationQueue := textItems\<rparr>)) of
                        (totalApplied, failedItems, s2) \<Rightarrow>
                          finishRun
                            (if \<not> translationCancelled s2
                             then completeRun h cancelAt translator targetLanguage sourceLanguage
                                    enableAutoTranslate (length textItems) totalApplied failedItems s2
                             else s2))))"

text \<open>
  The \<^verbatim>\<open>START_TRANSLATION\<close> message and its handler, which answers
  \<^verbatim>\<open>{ started: true }\<close> without waiting for \<^verbatim>\<open>translatePage\<close>.
\<close>

record startMessage =
  m_targetLanguage :: jsstring
  m_sourceLanguage :: "jsstring option"
  m_showGlow :: "bool option"

record startResponse =
  started :: bool

definition onStartTranslation ::
  "host \<Rightarrow> (nat \<Rightarrow> bool) \<Rightarrow> (nat \<Rightarrow> response) \<Rightarrow> dom \<Rightarrow> element list \<Rightarrow> startMessage \<Rightarrow> page
   \<Rightarrow> startResponse \<times> page" where
  "onStartTranslation h cancelAt translator body bodyAncestors message s =
     (let s1 = (case m_showGlow message of Some g \<Rightarrow> s\<lparr>showGlow := g\<rparr> | None \<Rightarrow> s)
      in (\<lparr>started = True\<rparr>,
          translatePage h cancelAt translator body bodyAncestors (m_targetLanguage message)
            (case m_sourceLanguage message of Some l \<Rightarrow> l | None \<Rightarrow> js ''auto'') True s1))"

section \<open>Reading a trace\<close>

text \<open>The events that happened between two states of one execution.\<close>

definition eventsSince :: "page \<Rightarrow> page \<Rightarrow> event list" where
  "eventsSince s s' = drop (length (trace s)) (trace s')"

fun isRequestOrTimer :: "event \<Rightarrow> bool" where
  "isRequestOrTimer (SendTranslate textItems targetLanguage sourceLanguage) = True"
| "isRequestOrTimer (SetTimeout ms) = True"
| "isRequestOrTimer e = False"

definition requestsAndTimers :: "event list \<Rightarrow> event list" where
  "requestsAndTimers es = filter isRequestOrTimer es"

text \<open>
  \<open>noBatchAfterCancel es\<close>: after the first \<open>CancelRequested\<close> in \<open>es\<close> no call of
  \<^verbatim>\<open>translateBatch\<close> with a batch that is not empty begins. Such a call logs
  \<open>LogBatchCalled\<close> before anything else, and only \<^verbatim>\<open>translateBatch\<close> sends to the
  Translator.
\<close>

fun isBatchCall :: "event \<Rightarrow> bool" where
  "isBatchCall (LogBatchCalled n) = True"
| "isBatchCall e = False"

fun noBatchAfterCancel :: "event list \<Rightarrow> bool" where
  "noBatchAfterCancel [] = True"
| "noBatchAfterCancel (CancelRequested # es) = list_all (\<lambda>e. \<not> isBatchCall e) es"
| "noBatchAfterCancel (e # es) = noBatchAfterCancel es"

text \<open>
  \<open>onlyResendsAfterCancel es\<close>: every request sent to the Translator after the first
  \<open>CancelRequested\<close> in \<open>es\<close> is equal to the request that was sent last before it (and
  there is none, if none was sent before). The fold keeps the request sent last before
  the cancellation, whether a cancellation has been seen, and the verdict so far.
\<close>

fun isSend :: "event \<Rightarrow> bool" where
  "isSend (SendTranslate textItems targetLanguage sourceLanguage) = True"
| "isSend e = False"

fun resendStep :: "event option \<times> bool \<times> bool \<Rightarrow> event \<Rightarrow> event option \<times> bool \<times> bool" where
  "resendStep (lastSent, cancelled, ok) CancelRequested = (lastSent, True, ok)"
| "resendStep (lastSent, cancelled, ok) (SendTranslate textItems targetLanguage sourceLanguage) =
     (if cancelled
      then (lastSent, cancelled,
            ok \<and> lastSent = Some (SendTranslate textItems targetLanguage sourceLanguage))
      else (Some (SendTranslate textItems targetLanguage sourceLanguage), cancelled, ok))"
| "resendStep st e = st"

definition lastRequest :: "event list \<Rightarrow> event option" where
  "lastRequest es = fst (foldl resendStep (None, False, True) es)"

definition onlyResendsAfterCancel :: "event list \<Rightarrow> bool" where
  "onlyResendsAfterCancel es = snd (snd (foldl resendStep (None, False, True) es))"

text \<open>
  The invariant of a run that started when the trace had \<open>n0\<close> events: a cancellation
  seen since then has set the flag, no batch began after it, and only the request in
  flight was sent again after it.
\<close>

definition runInv :: "nat \<Rightarrow> page \<Rightarrow> bool" where
  "runInv n0 s =
     (n0 \<le> length (trace s) \<and> noBatchAfterCancel (drop n0 (trace s)) \<and>
      (CancelRequested \<in> set (drop n0 (trace s)) \<longrightarrow> translationCancelled s) \<and>
      onlyResendsAfterCancel (drop n0 (trace s)))"

text \<open>
  The same while the request \<open>req\<close> is in flight: it is what a cancellation now, or the
  one already seen, leaves as the only request that may be sent again.
\<close>

definition inFlight :: "nat \<Rightarrow> event \<Rightarrow> page \<Rightarrow> bool" where
  "inFlight n0 req s = (runInv n0 s \<and> lastRequest (drop n0 (trace s)) = Some req)"

section \<open>Reading the outcome of a batch\<close>

text \<open>
  \<open>replaceSucceeds s ident\<close>: \<^verbatim>\<open>replaceTextNode(ident, ...)\<close> returns true in \<open>s\<close>, that is,
  the registry has the id and the parent element of the node, if it has one, has
  \<^verbatim>\<open>style\<close> and \<^verbatim>\<open>dataset\<close>.
\<close>

definition replaceSucceeds :: "page \<Rightarrow> int \<Rightarrow> bool" where
  "replaceSucceeds s ident =
     (case map_of (textNodeMap s) ident of
        None \<Rightarrow> False
      | Some en \<Rightarrow>
          (case parentElement s (node en) of
             None \<Rightarrow> True
           | Some parent \<Rightarrow> parent \<notin> bareElements s))"

text \<open>
  A response entry that \<^verbatim>\<open>translateBatch\<close> counts as applied: no truthy \<^verbatim>\<open>error\<close>, a text
  that is not empty, and a call of \<^verbatim>\<open>replaceTextNode\<close> that returns true.
\<close>

definition applicable :: "page \<Rightarrow> translation \<Rightarrow> bool" where
  "applicable s t = (\<not> truthy (t_error t) \<and> t_text t \<noteq> [] \<and> replaceSucceeds s (t_id t))"

text \<open>The ids of the nodes replaced, as the console lines of \<^verbatim>\<open>replaceTextNode\<close> report them.\<close>

fun replacedIds :: "event list \<Rightarrow> int list" where
  "replacedIds [] = []"
| "replacedIds (LogReplaced ident # es) = ident # replacedIds es"
| "replacedIds (e # es) = replacedIds es"

text \<open>What one response entry adds to the list \<open>failed\<close>.\<close>

definition failedFor :: "page \<Rightarrow> item list \<Rightarrow> translation \<Rightarrow> item list" where
  "failedFor s textItems t =
     (if \<not> truthy (t_error t) \<and> t_text t \<noteq> []
      then (if replaceSucceeds s (t_id t) then [] else findItem textItems (t_id t))
      else if truthy (t_error t) then findItem textItems (t_id t) else [])"

section \<open>Reading the registry after an extraction\<close>

text \<open>
  The invariant of the registry: every id in it is below the counter \<open>nextId\<close>. It holds
  when the script is loaded and every operation that writes the registry or the counter
  keeps it, and so does a whole run of \<^verbatim>\<open>translatePage\<close> (lemmas
  \<open>idsBelowNext_invariant\<close> and \<open>idsBelowNext_translatePage\<close>).
\<close>

definition idsBelowNext :: "page \<Rightarrow> bool" where
  "idsBelowNext s = list_all (\<lambda>(k, e). k < nextId s) (textNodeMap s)"

text \<open>
  An item resolves when the registry has an entry under its id whose \<open>originalText\<close>,
  trimmed, is the item's text.
\<close>

definition resolves :: "page \<Rightarrow> item \<Rightarrow> bool" where
  "resolves s it =
     (case map_of (textNodeMap s) (item_id it) of
        None \<Rightarrow> False
      | Some e \<Rightarrow> trim (originalText e) = item_text it)"

definition sortedByPriority :: "item list \<Rightarrow> bool" where
  "sortedByPriority items = sorted_wrt (\<lambda>a b. item_priority b \<le> item_priority a) items"

text \<open>
  \<open>appendsTo onlyUnprocessed s items s'\<close>: the registry of \<open>s'\<close> is the registry of \<open>s\<close>
  followed by new entries, one under the id of each item (and, when \<open>onlyUnprocessed\<close>,
  none for a node that was in the processed set); the processed set is unchanged and the
  counter has advanced by the number of items.
\<close>

definition newEntries :: "page \<Rightarrow> page \<Rightarrow> (int \<times> entry) list" where
  "newEntries s s' = drop (length (textNodeMap s)) (textNodeMap s')"

definition appendsTo :: "bool \<Rightarrow> page \<Rightarrow> item list \<Rightarrow> page \<Rightarrow> bool" where
  "appendsTo onlyUnprocessed s items s' =
     (take (length (textNodeMap s)) (textNodeMap s') = textNodeMap s \<and>
      fst ` set (newEntries s s') = item_id ` set items \<and>
      (onlyUnprocessed \<longrightarrow> list_all (\<lambda>(k, e). node e \<notin> translatedNodeSet s) (newEntries s s')) \<and>
      translatedNodeSet s' = translatedNodeSet s \<and>
      nextId s' = nextId s + int (length items))"

text \<open>
  The emitted items have distinct ids, resolve, and come in descending order of priority;
  \<open>freshIds\<close>: none of their ids was in the registry before.
\<close>

definition emittedOk :: "item list \<Rightarrow> page \<Rightarrow> bool" where
  "emittedOk items s' =
     (distinct (map item_id items) \<and> list_all (resolves s') items \<and> sortedByPriority items)"

definition freshIds :: "page \<Rightarrow> item list \<Rightarrow> bool" where
  "freshIds s items = list_all (\<lambda>it. item_id it \<notin> fst ` set (textNodeMap s)) items"

text \<open>What one extraction step establishes, given the invariant before it.\<close>

definition extends :: "bool \<Rightarrow> page \<Rightarrow> item list \<Rightarrow> page \<Rightarrow> bool" where
  "extends u s items s' =
     (idsBelowNext s' \<and> appendsTo u s items s' \<and> distinct (map item_id items) \<and>
      textContent s' = textContent s \<and>
      (\<forall>it \<in> set items. nextId s \<le> item_id it \<and> item_id it < nextId s' \<and> resolves s' it))"

text \<open>
  \<open>grows u s s'\<close>: what an extraction leaves behind also when it throws. The registry of
  \<open>s'\<close> is the registry of \<open>s\<close> followed by new entries (and, when \<open>u\<close>, none for a node
  that was in the processed set); the processed set and the texts are unchanged and the
  counter has not gone down. \<open>extendsBy\<close> reads the outcome: the items of an extraction
  that returns, the exception of one that throws.
\<close>

definition grows :: "bool \<Rightarrow> page \<Rightarrow> page \<Rightarrow> bool" where
  "grows u s s' =
     (take (length (textNodeMap s)) (textNodeMap s') = textNodeMap s \<and>
      (u \<longrightarrow> list_all (\<lambda>(k, e). node e \<notin> translatedNodeSet s) (newEntries s s')) \<and>
      translatedNodeSet s' = translatedNodeSet s \<and>
      textContent s' = textContent s \<and>
      nextId s \<le> nextId s')"

definition extendsBy :: "bool \<Rightarrow> page \<Rightarrow> error + item list \<Rightarrow> page \<Rightarrow> bool" where
  "extendsBy u s outcome s' =
     (case outcome of
        Inr items \<Rightarrow> extends u s items s'
      | Inl e \<Rightarrow> idsBelowNext s' \<and> grows u s s')"

text \<open>
  The elements of a subtree, and \<open>stringIds\<close>: the \<^verbatim>\<open>id\<close> of each element of a list is a
  string.
\<close>

fun elementsOf :: "dom \<Rightarrow> element list" where
  "elementsOf (TextNode n) = []"
| "elementsOf (Element e children) = e # concat (map elementsOf children)"
| "elementsOf OtherNode = []"

definition stringIds :: "element list \<Rightarrow> bool" where
  "stringIds es = list_all (\<lambda>e. elem_id e \<noteq> JsObject) es"

text \<open>
  \<open>neverShrinks s s'\<close>: no id has left the registry, the processed set is the same and
  the counter has not gone down.
\<close>

definition neverShrinks :: "page \<Rightarrow> page \<Rightarrow> bool" where
  "neverShrinks s s' =
     (fst ` set (textNodeMap s) \<subseteq> fst ` set (textNodeMap s') \<and>
      translatedNodeSet s' = translatedNodeSet s \<and> nextId s \<le> nextId s')"

text \<open>\<open>sameIds s s'\<close>: the registry has the same ids and the counter is the same.\<close>

definition sameIds :: "page \<Rightarrow> page \<Rightarrow> bool" where
  "sameIds s s' = (fst ` set (textNodeMap s') = fst ` set (textNodeMap s) \<and> nextId s' = nextId s)"

section \<open>Initial state and example pages\<close>

text \<open>
  The module's variables when the content script has just been loaded, in a document
  where the text node \<open>n\<close> has the text \<open>texts n\<close> and is the only child of the element
  \<open>n\<close>, and every element has \<^verbatim>\<open>style\<close> and \<^verbatim>\<open>dataset\<close>.
\<close>

definition initialPage :: "(noderef \<Rightarrow> jsstring) \<Rightarrow> page" where
  "initialPage texts =
     \<lparr>textNodeMap = [], translatedNodeSet = {}, translationInProgress = False,
      translationCancelled = False, nextId = 0, currentTargetLanguage = js ''en'',
      autoTranslateEnabled = False, showGlow = False, mutationObserver = False,
      pendingNewNodes = [], autoTranslateDebounceTimer = False, hasTranslationCache = False,
      isShowingTranslations = False, pendingTranslationQueue = [], scrollListener = False,
      textContent = texts, parentElement = (\<lambda>n. Some n), bareElements = {}, glow = {},
      datasetTranslated = {}, clock = 0, trace = []\<rparr>"

text \<open>A host whose alphabet is ASCII, with a 1280 by 720 window.\<close>

definition asciiLower :: "jsstring \<Rightarrow> jsstring" where
  "asciiLower s = map (\<lambda>c. if 65 \<le> c \<and> c \<le> 90 then c + 32 else c) s"

definition asciiHasLetters :: "jsstring \<Rightarrow> bool" where
  "asciiHasLetters s = list_ex (\<lambda>c. (65 \<le> c \<and> c \<le> 90) \<or> (97 \<le> c \<and> c \<le> 122)) s"

definition exampleHost :: host where
  "exampleHost =
     \<lparr>toLowerCase = asciiLower, hasLetters = asciiHasLetters, innerWidth = 1280,
      innerHeight = 720, pageLanguage = js ''en''\<rparr>"

definition visibleRect :: rect where
  "visibleRect = \<lparr>r_top = 100, r_bottom = 140, r_left = 340, r_right = 940, r_width = 600\<rparr>"

definition offscreenRect :: rect where
  "offscreenRect = \<lparr>r_top = 2000, r_bottom = 2020, r_left = 0, r_right = 120, r_width = 120\<rparr>"

definition plainElement :: "string \<Rightarrow> rect \<Rightarrow> element" where
  "plainElement tag r =
     \<lparr>tagName = js tag, elem_id = JsString [], className = None, role = None, translate = None,
      isContentEditable = False, display = js ''block'', visibility = js ''visible'',
      boundingRect = r\<rparr>"

definition helloItem :: item where
  "helloItem = \<lparr>item_id = 1, item_text = js ''Hello'', item_priority = 0\<rparr>"

definition worldItem :: item where
  "worldItem = \<lparr>item_id = 2, item_text = js ''World'', item_priority = 0\<rparr>"

text \<open>
  A page after the extraction of three text nodes (references 10, 11, 12; ids 0, 1, 2),
  and two Translator responses.
\<close>

definition threeNodePage :: page where
  "threeNodePage =
     (initialPage ((\<lambda>n. [])(10 := js ''Title'', 11 := js '' Hello '', 12 := js ''World'')))
       \<lparr>textNodeMap :=
          [(0, \<lparr>node = 10, originalText = js ''Title'', translated = False, translatedText = None\<rparr>),
           (1, \<lparr>node = 11, originalText = js '' Hello '', translated = False, translatedText = None\<rparr>),
           (2, \<lparr>node = 12, originalText = js ''World'', translated = False, translatedText = None\<rparr>)],
        nextId := 3\<rparr>"

definition holaOnly :: response where
  "holaOnly = Reply None (Some [\<lparr>t_id = 1, t_text = js ''Hola'', t_error = None\<rparr>])"

definition holaMundo :: response where
  "holaMundo = Reply None (Some [\<lparr>t_id = 1, t_text = js ''Hola'', t_error = None\<rparr>,
                                 \<lparr>t_id = 2, t_text = js ''Mundo'', t_error = None\<rparr>])"

text \<open>
  A Translator whose first request (sent at clock 0) fails and whose later requests are
  answered by \<open>holaOnly\<close>.
\<close>

definition holaAtSecondAttempt :: "nat \<Rightarrow> response" where
  "holaAtSecondAttempt c = (if c = 0 then Throws else holaOnly)"

text \<open>
  A document with one paragraph, a Translator that answers for id 0, and two runs of
  \<^verbatim>\<open>translatePage\<close> on it: one cancelled while its only batch is in flight, one that
  completes.
\<close>

definition helloBody :: dom where
  "helloBody = Element (plainElement ''BODY'' visibleRect)
                 [Element (plainElement ''P'' visibleRect) [TextNode 11]]"

definition helloTexts :: "noderef \<Rightarrow> jsstring" where
  "helloTexts = (\<lambda>n. [])(11 := js '' Hello '')"

definition holaForZero :: response where
  "holaForZero = Reply None (Some [\<lparr>t_id = 0, t_text = js ''Hola'', t_error = None\<rparr>])"

definition cancelledRunPage :: page where
  "cancelledRunPage =
     translatePage exampleHost (\<lambda>k. k = 0) (\<lambda>k. holaForZero) helloBody
       [plainElement ''HTML'' visibleRect] (js ''es'') (js ''auto'') True (initialPage helloTexts)"

definition completedRunPage :: page where
  "completedRunPage =
     translatePage exampleHost (\<lambda>k. False) (\<lambda>k. holaForZero) helloBody
       [plainElement ''HTML'' visibleRect] (js ''es'') (js ''auto'') True (initialPage helloTexts)"

text \<open>A page in the middle of a run, and a start request that turns the glow on.\<close>

definition busyPage :: page where
  "busyPage = threeNodePage\<lparr>translationInProgress := True, pendingTranslationQueue := [worldItem]\<rparr>"

definition startWithGlow :: startMessage where
  "startWithGlow = \<lparr>m_targetLanguage = js ''es'', m_sourceLanguage = None, m_showGlow = Some True\<rparr>"

text \<open>
  A document with nine paragraphs, and a run on it that is cancelled while the first
  request for its first batch of eight is in flight; every request fails.
\<close>

definition nineBody :: dom where
  "nineBody = Element (plainElement ''BODY'' visibleRect)
     (map (\<lambda>n. Element (plainElement ''P'' visibleRect) [TextNode n]) [20, 21, 22, 23, 24, 25, 26, 27, 28])"

definition nineRunCancelled :: page where
  "nineRunCancelled =
     translatePage exampleHost (\<lambda>k. k = 0) (\<lambda>k. Throws) nineBody
       [plainElement ''HTML'' visibleRect] (js ''es'') (js ''auto'') True
       (initialPage (\<lambda>n. js ''Hello''))"

text \<open>
  A document over the nodes 10 and 11 of \<open>threeNodePage\<close>, and that page after the
  translation of id 1 has been applied (node 11 is then in the processed set).
\<close>

definition twoBody :: dom where
  "twoBody = Element (plainElement ''BODY'' visibleRect)
     [Element (plainElement ''LABEL'' offscreenRect) [TextNode 10],
      Element (plainElement ''P'' visibleRect) [TextNode 11]]"

definition holaPage :: page where
  "holaPage = snd (replaceTextNode 1 (js ''Hola'') threeNodePage)"


text \<open>
  A form with a hidden input named \<^verbatim>\<open>id\<close> and a label:
  \<^verbatim>\<open><form><input type="hidden" name="id"><label>Name</label></form>\<close>. Reading the \<^verbatim>\<open>id\<close>
  of the form gives the input.
\<close>

definition formWithIdControl :: element where
  "formWithIdControl = (plainElement ''FORM'' visibleRect)\<lparr>elem_id := JsObject\<rparr>"

definition formBody :: dom where
  "formBody = Element (plainElement ''BODY'' visibleRect)
     [Element formWithIdControl
        [Element (plainElement ''INPUT'' visibleRect) [],
         Element (plainElement ''LABEL'' visibleRect) [TextNode 30]]]"

definition formTexts :: "noderef \<Rightarrow> jsstring" where
  "formTexts = (\<lambda>n. [])(30 := js ''Name'')"

text \<open>
  A window 1440 pixels wide and an element whose centre is 504 pixels to the right of
  the centre of the window.
\<close>

definition wideHost :: host where
  "wideHost = exampleHost\<lparr>innerWidth := 1440\<rparr>"

definition rightRect :: rect where
  "rightRect = \<lparr>r_top = 100, r_bottom = 140, r_left = 1124, r_right = 1324, r_width = 200\<rparr>"

text \<open>
  The page \<open>threeNodePage\<close> when the parent of node 11 is an element without \<^verbatim>\<open>style\<close> and
  \<^verbatim>\<open>dataset\<close>.
\<close>

definition bareParentPage :: page where
  "bareParentPage = threeNodePage\<lparr>bareElements := {11}\<rparr>"

text \<open>
  After the completed run a script adds a text node 12 with the text \<^verbatim>\<open>"World"\<close>, which
  the mutation observer reports twice; \<^verbatim>\<open>extractNewTextNodes\<close> registers it under the
  ids 1 and 2, and \<^verbatim>\<open>translateBatch\<close> applies a response that lists id 2 first.
\<close>

definition worldAdded :: "(error + item list) \<times> page" where
  "worldAdded =
     extractNewTextNodes exampleHost
       [AddedText 12 [plainElement ''P'' visibleRect, plainElement ''BODY'' visibleRect,
                      plainElement ''HTML'' visibleRect],
        AddedText 12 [plainElement ''P'' visibleRect, plainElement ''BODY'' visibleRect,
                      plainElement ''HTML'' visibleRect]]
       (completedRunPage\<lparr>textContent := (textContent completedRunPage)(12 := js ''World'')\<rparr>)"

definition mundoThenTierra :: response where
  "mundoThenTierra = Reply None (Some [\<lparr>t_id = 2, t_text = js ''Mundo'', t_error = None\<rparr>,
                                       \<lparr>t_id = 1, t_text = js ''Tierra'', t_error = None\<rparr>])"

definition worldAddedTwice :: page where
  "worldAddedTwice =
     snd (translateBatch exampleHost (\<lambda>k. False) (\<lambda>k. mundoThenTierra)
            (case fst worldAdded of Inr items \<Rightarrow> items | Inl e \<Rightarrow> [])
            (js ''es'') (js ''auto'') 3 (snd worldAdded))"

section \<open>Properties of the priority scorer\<close>

lemma js_eq_iff: "js a = js b \<longleftrightarrow> a = b"
  unfolding js_def by (metis inj_map_eq_map inj_of_char)

lemma length_trim_le: "length (trim s) \<le> length s"
proof -
  have "length (dropWhile isWhiteSpace (rev (dropWhile isWhiteSpace s)))
        \<le> length (rev (dropWhile isWhiteSpace s))"
    by (rule length_dropWhile_le)
  also have "\<dots> \<le> length s" by (simp add: length_dropWhile_le)
  finally show ?thesis by (simp add: trim_def)
qed

lemma dropWhile_none: "\<forall>c \<in> set s. \<not> P c \<Longrightarrow> dropWhile P s = s"
  by (cases s) auto

lemma trim_no_space: "\<forall>c \<in> set s. \<not> isWhiteSpace c \<Longrightarrow> trim s = s"
  by (simp add: trim_def dropWhile_none)

lemma viewportScore_bounds:
  "0 \<le> viewportScore h r"
  "inViewport h r \<Longrightarrow> 10000 \<le> viewportScore h r"
  "\<not> inViewport h r \<Longrightarrow> viewportScore h r = 0"
  by (simp_all add: viewportScore_def)

lemma contextScore_bounds: "- 300 \<le> contextScore w" "contextScore w \<le> 500"
  by (simp_all add: contextScore_def split: prod.split)

lemma centerPenalty_bounds: "- 100 \<le> centerPenalty h r" "centerPenalty h r \<le> 0"
  by (simp_all add: centerPenalty_def Let_def)

lemma tagScore_P: "tagScore (js ''P'') = 80"
  by (simp add: tagScore_def)

lemma tagScore_LABEL: "tagScore (js ''LABEL'') = - 30"
  by (simp add: tagScore_def js_eq_iff)

lemma ancestryWalk_returns:
  "(\<exists>w. ancestryWalk h ancestors depth m sb = Inr w) \<longleftrightarrow> stringIds (take (15 - depth) ancestors)"
proof (induction ancestors arbitrary: depth m sb)
  case Nil
  show ?case by (simp add: stringIds_def)
next
  case (Cons a up)
  show ?case
  proof (cases "depth < 15")
    case False
    then show ?thesis by (simp add: stringIds_def)
  next
    case True
    then have "15 - depth = Suc (15 - (depth + 1))" by simp
    then have t: "take (15 - depth) (a # up) = a # take (15 - (depth + 1)) up"
      by (simp only: take_Suc_Cons)
    show ?thesis
    proof (cases "elem_id a")
      case JsObject
      then show ?thesis using True by (simp add: t lowerId_def stringIds_def)
    next
      case (JsString x)
      then show ?thesis using True Cons.IH[of "depth + 1"]
        by (simp add: lowerId_def stringIds_def t del: take_Suc_Cons)
    qed
  qed
qed

text \<open>
  \<^verbatim>\<open>calculatePriority\<close> returns a score exactly when the \<^verbatim>\<open>id\<close> of each of the first 15
  ancestors is a string; otherwise it throws.
\<close>

lemma calculatePriority_returns:
  "(\<exists>p. calculatePriority h ancestors str = Inr p) \<longleftrightarrow> stringIds (take 15 ancestors)"
proof (cases ancestors)
  case Nil
  then show ?thesis by (simp add: calculatePriority_def stringIds_def)
next
  case (Cons parent up)
  have "(\<exists>p. calculatePriority h ancestors str = Inr p)
        \<longleftrightarrow> (\<exists>w. ancestryWalk h ancestors 0 False False = Inr w)"
    unfolding Cons by (auto simp: calculatePriority_def split: sum.splits)
  then show ?thesis using ancestryWalk_returns[of h ancestors 0 False False] by simp
qed

lemma calculatePriority_throws:
  "\<not> stringIds (take 15 ancestors) \<Longrightarrow> calculatePriority h ancestors str = Inl TypeError"
  using calculatePriority_returns[of h ancestors str]
  by (cases "calculatePriority h ancestors str") (auto intro: error.exhaust)

text \<open>
  A score that is returned is not negative. When the parent of a first node is a
  \<^verbatim>\<open><p>\<close> that intersects the viewport, its trimmed text has at least 200 code units and
  one of its ancestors is a \<^verbatim>\<open><main>\<close>, while the parent of a second node is a \<^verbatim>\<open><label>\<close>
  that does not intersect the viewport, its trimmed text has fewer than 20 code units
  and one of its ancestors is a \<^verbatim>\<open><nav>\<close>, the score of the first node, if both are
  returned, is strictly higher than the score of the second.
\<close>

lemma calculatePriority_nonneg:
  "calculatePriority h ancestors text = Inr p \<Longrightarrow> 0 \<le> p"
  by (auto simp: calculatePriority_def split: list.splits sum.splits)

lemma calculatePriority_order:
  assumes a: "tagName p = js ''P''" "inViewport h (boundingRect p)" "200 \<le> length (trim text1)"
    and b: "tagName l = js ''LABEL''" "\<not> inViewport h (boundingRect l)" "length (trim text2) < 20"
    and r1: "calculatePriority h (p # up1) text1 = Inr score1"
    and r2: "calculatePriority h (l # up2) text2 = Inr score2"
  shows "score2 < score1"
proof -
  obtain w1 where w1: "ancestryWalk h (p # up1) 0 False False = Inr w1"
    and s1: "score1 = max 0 (viewportScore h (boundingRect p) + lengthScore (length (trim text1))
                 + contextScore w1 + tagScore (tagName p) + centerPenalty h (boundingRect p))"
    using r1 by (auto simp: calculatePriority_def split: sum.splits)
  obtain w2 where w2: "ancestryWalk h (l # up2) 0 False False = Inr w2"
    and s2: "score2 = max 0 (viewportScore h (boundingRect l) + lengthScore (length (trim text2))
                 + contextScore w2 + tagScore (tagName l) + centerPenalty h (boundingRect l))"
    using r2 by (auto simp: calculatePriority_def split: sum.splits)
  have v1: "10000 \<le> viewportScore h (boundingRect p)"
    using a viewportScore_bounds(2) by blast
  have v2: "viewportScore h (boundingRect l) = 0"
    using b viewportScore_bounds(3) by blast
  have l1: "lengthScore (length (trim text1)) = 150"
    using a by (simp add: lengthScore_def)
  have l2: "lengthScore (length (trim text2)) = - 20"
    using b by (simp add: lengthScore_def)
  have t1: "tagScore (tagName p) = 80" using a tagScore_P by simp
  have t2: "tagScore (tagName l) = - 30" using b tagScore_LABEL by simp
  note c1 = contextScore_bounds(1)[of w1]
  note c2 = contextScore_bounds(2)[of w2]
  note p1 = centerPenalty_bounds(1)[of h "boundingRect p"]
  note p2 = centerPenalty_bounds(2)[of h "boundingRect l"]
  show ?thesis unfolding s1 s2 using v1 v2 l1 l2 t1 t2 c1 c2 p1 p2 by linarith
qed

text \<open>
  The position penalty follows the arithmetic of doubles: in a window 1440 pixels wide
  the threshold \<^verbatim>\<open>window.innerWidth * 0.35\<close> is the double just below 504, so an element
  whose centre is exactly 504 pixels from the centre of the window gets the penalty.
\<close>

lemma centerPenalty_boundary:
  "dmul 1440 (roundDouble (35 / 100)) = 8866461766385663 / 2 ^ 44"
  "8866461766385663 / 2 ^ 44 < (504 :: real)"
  "centerPenalty wideHost rightRect = - 100"
proof -
  show "dmul 1440 (roundDouble (35 / 100)) = 8866461766385663 / 2 ^ 44"
    by (simp add: double_eval)
  show "8866461766385663 / 2 ^ 44 < (504 :: real)" by simp
  have "innerWidth wideHost = 1440" "r_left rightRect = 1124" "r_width rightRect = 200"
    by (simp_all add: wideHost_def exampleHost_def rightRect_def)
  then show "centerPenalty wideHost rightRect = - 100"
    unfolding centerPenalty_def Let_def by (simp add: double_eval)
qed

text \<open>The scores of the example rectangles, and what the example host and elements hold.\<close>

lemma exampleHost_sel:
  "toLowerCase exampleHost = asciiLower" "hasLetters exampleHost = asciiHasLetters"
  "innerWidth exampleHost = 1280" "innerHeight exampleHost = 720"
  "pageLanguage exampleHost = js ''en''"
  by (simp_all add: exampleHost_def)

lemma plainElement_sel:
  "tagName (plainElement tag r) = js tag" "elem_id (plainElement tag r) = JsString []"
  "className (plainElement tag r) = None" "role (plainElement tag r) = None"
  "translate (plainElement tag r) = None" "isContentEditable (plainElement tag r) = False"
  "display (plainElement tag r) = js ''block''" "visibility (plainElement tag r) = js ''visible''"
  "boundingRect (plainElement tag r) = r"
  by (simp_all add: plainElement_def)

lemma example_scores:
  "viewportScore exampleHost visibleRect = 10200"
  "centerPenalty exampleHost visibleRect = 0"
  "viewportScore exampleHost offscreenRect = 0"
  "centerPenalty exampleHost offscreenRect = - 100"
proof -
  have v: "r_top visibleRect = 100" "r_bottom visibleRect = 140" "r_left visibleRect = 340"
    "r_right visibleRect = 940" "r_width visibleRect = 600"
    by (simp_all add: visibleRect_def)
  have o: "r_top offscreenRect = 2000" "r_bottom offscreenRect = 2020" "r_left offscreenRect = 0"
    "r_right offscreenRect = 120" "r_width offscreenRect = 120"
    by (simp_all add: offscreenRect_def)
  show "viewportScore exampleHost visibleRect = 10200"
    unfolding viewportScore_def inViewport_def exampleHost_sel v by (simp add: double_eval)
  show "centerPenalty exampleHost visibleRect = 0"
    unfolding centerPenalty_def Let_def exampleHost_sel v by (simp add: double_eval)
  show "viewportScore exampleHost offscreenRect = 0"
    unfolding viewportScore_def inViewport_def exampleHost_sel o by (simp add: double_eval)
  show "centerPenalty exampleHost offscreenRect = - 100"
    unfolding centerPenalty_def Let_def exampleHost_sel o by (simp add: double_eval)
qed

lemmas score_eval =
  calculatePriority_def lowerId_def mainContentIndicator_def sidebarIndicator_def contextScore_def
  tagScore_def lengthScore_def example_scores plainElement_sel exampleHost_sel asciiLower_def
  trim_def isWhiteSpace_def js_def Let_def

lemma example_priorities:
  "calculatePriority exampleHost
     [plainElement ''P'' visibleRect, plainElement ''BODY'' visibleRect, plainElement ''HTML'' visibleRect]
     (js '' Hello '') = Inr 10260"
  "calculatePriority exampleHost
     [plainElement ''LABEL'' offscreenRect, plainElement ''BODY'' visibleRect,
      plainElement ''HTML'' visibleRect]
     (js ''Title'') = Inr 0"
  by (simp_all add: score_eval)

lemma form_chain:
  "\<not> stringIds (take 15 [plainElement ''LABEL'' visibleRect, formWithIdControl,
                           plainElement ''BODY'' visibleRect, plainElement ''HTML'' visibleRect])"
  by (simp add: stringIds_def formWithIdControl_def)

text \<open>
  Claim C9. The claim holds of every text node for which \<^verbatim>\<open>calculatePriority\<close> returns
  (lemmas \<open>calculatePriority_nonneg\<close> and \<open>calculatePriority_order\<close>), but the function does
  not return for every node: for the label of the form
  \<^verbatim>\<open><form><input type="hidden" name="id"><label>Name</label></form>\<close> it throws a
  \<^verbatim>\<open>TypeError\<close>, because \<^verbatim>\<open>form.id\<close> is the input and \<^verbatim>\<open>(ancestor.id || '').toLowerCase()\<close> has
  no guard like the one on \<^verbatim>\<open>className\<close> in the line below it. The text node passes the
  filter of the extractor, so the extraction of the page throws as well, and
  \<^verbatim>\<open>translatePage\<close> ends with the error status and nothing translated.
\<close>

theorem calculatePriority_throws_on_form_id:
  "calculatePriority exampleHost
     [plainElement ''LABEL'' visibleRect, formWithIdControl,
      plainElement ''BODY'' visibleRect, plainElement ''HTML'' visibleRect] (js ''Name'')
     = Inl TypeError \<and>
   acceptNode exampleHost False (initialPage formTexts) 30
     [plainElement ''LABEL'' visibleRect, formWithIdControl,
      plainElement ''BODY'' visibleRect, plainElement ''HTML'' visibleRect] \<and>
   fst (extractTextNodes exampleHost formBody [plainElement ''HTML'' visibleRect] False
          (initialPage formTexts)) = Inl TypeError \<and>
   eventsSince (initialPage formTexts)
     (translatePage exampleHost (\<lambda>k. False) (\<lambda>k. Throws) formBody [plainElement ''HTML'' visibleRect]
        (js ''es'') (js ''auto'') True (initialPage formTexts))
     = [ShowStatus ExtractingText False, ShowStatus (TranslationError TypeError) True]"
proof -
  have c: "calculatePriority exampleHost
     [plainElement ''LABEL'' visibleRect, formWithIdControl,
      plainElement ''BODY'' visibleRect, plainElement ''HTML'' visibleRect] str = Inl TypeError" for str
    by (rule calculatePriority_throws) (rule form_chain)
  have acc: "acceptNode exampleHost False s 30
     [plainElement ''LABEL'' visibleRect, formWithIdControl,
      plainElement ''BODY'' visibleRect, plainElement ''HTML'' visibleRect]"
    if "textContent s = formTexts" for s
    using that
    by (simp add: acceptNode_def shouldSkipElement_def SKIP_TAGS_def isTranslatableText_def
        MIN_TEXT_LENGTH_def plainElement_def exampleHost_def asciiHasLetters_def
        formTexts_def trim_def isWhiteSpace_def js_def)
  have a: "acceptNode exampleHost False (initialPage formTexts) 30
     [plainElement ''LABEL'' visibleRect, formWithIdControl,
      plainElement ''BODY'' visibleRect, plainElement ''HTML'' visibleRect]"
    by (rule acc) (simp add: initialPage_def)
  have x: "extractTextNodes exampleHost formBody [plainElement ''HTML'' visibleRect] False s
           = (Inl TypeError, s\<lparr>textNodeMap := [], translatedNodeSet := {}, nextId := 1\<rparr>)"
    if "textContent s = formTexts" for s
  proof -
    have "acceptNode exampleHost False (s\<lparr>textNodeMap := [], translatedNodeSet := {}, nextId := 0\<rparr>) 30
     [plainElement ''LABEL'' visibleRect, formWithIdControl,
      plainElement ''BODY'' visibleRect, plainElement ''HTML'' visibleRect]"
      by (rule acc) (simp add: that)
    then show ?thesis
      by (simp add: extractTextNodes_def walkerNodes_def formBody_def registerNode_def c Let_def)
  qed
  have ip: "translationInProgress (initialPage formTexts) = False"
    "textContent (initialPage formTexts) = formTexts" "trace (initialPage formTexts) = []"
    by (simp_all add: initialPage_def)
  show ?thesis
    by (simp add: c a x ip translatePage_def showStatus_def emit_def finishRun_def eventsSince_def)
qed

section \<open>Properties of translateBatch\<close>

text \<open>
  Claim C10. Called with an empty list of items, \<^verbatim>\<open>translateBatch\<close> returns
  \<^verbatim>\<open>{ applied: 0, failed: [] }\<close> at once, for every target and source language and every
  number of retries: the state is unchanged, so nothing was sent to the Translator, no
  timer was awaited (the trace and the clock are as before).
\<close>

theorem translateBatch_empty:
  "translateBatch h cancelAt translator [] targetLanguage sourceLanguage retries s
   = (\<lparr>applied = 0, failed = []\<rparr>, s)"
  by (simp add: translateBatch_def)

theorem translateBatch_empty_witness:
  "translateBatch exampleHost (\<lambda>k. False) (\<lambda>k. Throws) [] (js ''es'') (js ''auto'') 3
     (initialPage (\<lambda>n. []))
   = (\<lparr>applied = 0, failed = []\<rparr>, initialPage (\<lambda>n. []))"
  using translateBatch_empty[of exampleHost "\<lambda>k. False" "\<lambda>k. Throws" "js ''es''" "js ''auto''" 3
      "initialPage (\<lambda>n. [])"]
  by simp

lemma trace_emit: "trace (emit e s) = trace s @ [e]"
  by (simp add: emit_def)

lemma trace_suspend:
  "trace (suspend cancelAt s) = trace s @ (if cancelAt (clock s) then [CancelRequested] else [])"
  by (simp add: suspend_def onCancelTranslation_def stopAutoTranslate_def emit_def Let_def)

lemma attemptLoop_all_fail:
  assumes "\<forall>k. transportFailure (translator k)"
  shows "fst (attemptLoop cancelAt translator textItems tgt pl retries attempt s)
           = \<lparr>applied = 0, failed = textItems\<rparr> \<and>
         (\<exists>ev. trace (snd (attemptLoop cancelAt translator textItems tgt pl retries attempt s)) = trace s @ ev \<and>
               requestsAndTimers ev =
                 concat (map (\<lambda>a. SendTranslate textItems tgt pl #
                                    (if a + 1 < retries then [SetTimeout (500 * (a + 1))] else []))
                             [attempt..<retries]))"
  using assms
proof (induction cancelAt translator textItems tgt pl retries attempt s rule: attemptLoop.induct)
  case (1 cancelAt translator textItems tgt pl retries attempt s)
  show ?case
  proof (cases "attempt < retries")
    case False
    then show ?thesis
      by (subst (1 2) attemptLoop.simps) (simp add: trace_emit requestsAndTimers_def)
  next
    case True
    define s1 where "s1 = suspend cancelAt (emit (SendTranslate textItems tgt pl) s)"
    define s2 where "s2 = emit (LogAttemptFailed (attempt + 1) retries) s1"
    define s3 where "s3 = (if attempt < retries - 1
                          then suspend cancelAt (emit (SetTimeout (500 * (attempt + 1))) s2)
                          else s2)"
    have tf: "transportFailure (translator (clock s))" using "1.prems" by simp
    have eq: "attemptLoop cancelAt translator textItems tgt pl retries attempt s
                = attemptLoop cancelAt translator textItems tgt pl retries (attempt + 1) s3"
      using True tf by (subst attemptLoop.simps) (simp add: s1_def s2_def s3_def Let_def)
    have "\<exists>ev0. trace s3 = trace s @ ev0 \<and>
      requestsAndTimers ev0 = SendTranslate textItems tgt pl #
           (if attempt + 1 < retries then [SetTimeout (500 * (attempt + 1))] else [])"
    proof (cases "attempt + 1 < retries")
      case True
      then have "attempt < retries - 1" by simp
      then have "trace s3 = trace s @ ([SendTranslate textItems tgt pl] @
               (if cancelAt (clock (emit (SendTranslate textItems tgt pl) s)) then [CancelRequested] else []) @
               [LogAttemptFailed (attempt + 1) retries, SetTimeout (500 * (attempt + 1))] @
               (if cancelAt (clock (emit (SetTimeout (500 * (attempt + 1))) s2)) then [CancelRequested] else []))"
        by (simp add: s3_def s2_def s1_def trace_emit trace_suspend)
      then show ?thesis using True by (simp add: requestsAndTimers_def)
    next
      case False
      then have "\<not> attempt < retries - 1" by simp
      then have "trace s3 = trace s @ ([SendTranslate textItems tgt pl] @
               (if cancelAt (clock (emit (SendTranslate textItems tgt pl) s)) then [CancelRequested] else []) @
               [LogAttemptFailed (attempt + 1) retries])"
        by (simp add: s3_def s2_def s1_def trace_emit trace_suspend)
      then show ?thesis using False by (simp add: requestsAndTimers_def)
    qed
    then obtain ev0 where ev0: "trace s3 = trace s @ ev0"
      "requestsAndTimers ev0 = SendTranslate textItems tgt pl #
           (if attempt + 1 < retries then [SetTimeout (500 * (attempt + 1))] else [])"
      by blast
    from "1.IH"[OF True refl refl tf "1.prems"]
    obtain ev1 where ev1:
      "fst (attemptLoop cancelAt translator textItems tgt pl retries (attempt + 1) s3)
         = \<lparr>applied = 0, failed = textItems\<rparr>"
      "trace (snd (attemptLoop cancelAt translator textItems tgt pl retries (attempt + 1) s3)) = trace s3 @ ev1"
      "requestsAndTimers ev1 =
         concat (map (\<lambda>a. SendTranslate textItems tgt pl #
                            (if a + 1 < retries then [SetTimeout (500 * (a + 1))] else []))
                     [attempt + 1..<retries])"
      unfolding s3_def s2_def s1_def Let_def by auto
    have "requestsAndTimers (ev0 @ ev1) =
          concat (map (\<lambda>a. SendTranslate textItems tgt pl #
                            (if a + 1 < retries then [SetTimeout (500 * (a + 1))] else []))
                     [attempt..<retries])"
      using ev0(2) ev1(3) True by (simp add: requestsAndTimers_def upt_conv_Cons)
    then show ?thesis unfolding eq using ev0(1) ev1(1,2) by auto
  qed
qed

text \<open>
  Claim C3. When the batch is not empty and every call to the Translator fails at the
  transport level (\<^verbatim>\<open>sendMessage\<close> throws, or the response carries a truthy \<^verbatim>\<open>error\<close>),
  \<^verbatim>\<open>translateBatch\<close> sends the batch exactly \<open>retries\<close> times, waits \<open>500 * k\<close> ms after
  the \<open>k\<close>-th failed attempt when another attempt follows, and returns \<open>applied = 0\<close>
  with \<open>failed\<close> the whole list of requested items.
\<close>

theorem translateBatch_all_attempts_fail:
  assumes "textItems \<noteq> []" and "\<forall>k. transportFailure (translator k)"
  shows "fst (translateBatch h cancelAt translator textItems targetLanguage sourceLanguage retries s)
           = \<lparr>applied = 0, failed = textItems\<rparr> \<and>
         requestsAndTimers
           (eventsSince s (snd (translateBatch h cancelAt translator textItems targetLanguage sourceLanguage retries s)))
           = concat (map (\<lambda>attempt.
                       SendTranslate textItems targetLanguage (effectivePageLanguage h sourceLanguage) #
                       (if attempt + 1 < retries then [SetTimeout (500 * (attempt + 1))] else []))
                     [0..<retries])"
proof -
  define s0 where "s0 = emit (LogBatchCalled (length textItems)) s"
  have eq: "translateBatch h cancelAt translator textItems targetLanguage sourceLanguage retries s
            = attemptLoop cancelAt translator textItems targetLanguage
                (effectivePageLanguage h sourceLanguage) retries 0 s0"
    using assms(1) by (simp add: translateBatch_def effectivePageLanguage_def s0_def)
  from attemptLoop_all_fail[OF assms(2), of cancelAt textItems targetLanguage
        "effectivePageLanguage h sourceLanguage" retries 0 s0]
  obtain ev where ev:
    "fst (attemptLoop cancelAt translator textItems targetLanguage
            (effectivePageLanguage h sourceLanguage) retries 0 s0) = \<lparr>applied = 0, failed = textItems\<rparr>"
    "trace (snd (attemptLoop cancelAt translator textItems targetLanguage
            (effectivePageLanguage h sourceLanguage) retries 0 s0)) = trace s0 @ ev"
    "requestsAndTimers ev = concat (map (\<lambda>attempt.
                       SendTranslate textItems targetLanguage (effectivePageLanguage h sourceLanguage) #
                       (if attempt + 1 < retries then [SetTimeout (500 * (attempt + 1))] else []))
                     [0..<retries])"
    by auto
  have "eventsSince s (snd (attemptLoop cancelAt translator textItems targetLanguage
            (effectivePageLanguage h sourceLanguage) retries 0 s0)) = LogBatchCalled (length textItems) # ev"
    using ev(2) by (simp add: eventsSince_def s0_def trace_emit)
  then show ?thesis unfolding eq using ev(1,3) by (simp add: requestsAndTimers_def)
qed

theorem translateBatch_all_attempts_fail_witness:
  "fst (translateBatch exampleHost (\<lambda>k. False) (\<lambda>k. Throws) [helloItem] (js ''es'') (js ''auto'') 3
          (initialPage (\<lambda>n. [])))
     = \<lparr>applied = 0, failed = [helloItem]\<rparr> \<and>
   requestsAndTimers
     (eventsSince (initialPage (\<lambda>n. []))
        (snd (translateBatch exampleHost (\<lambda>k. False) (\<lambda>k. Throws) [helloItem] (js ''es'') (js ''auto'') 3
               (initialPage (\<lambda>n. [])))))
     = [SendTranslate [helloItem] (js ''es'') (js ''en''), SetTimeout 500,
        SendTranslate [helloItem] (js ''es'') (js ''en''), SetTimeout 1000,
        SendTranslate [helloItem] (js ''es'') (js ''en'')]"
proof -
  have f: "\<forall>k. transportFailure ((\<lambda>k. Throws) k)" by (simp add: transportFailure_def)
  have u: "[0..<3] = [0, 1, 2]" by (simp add: upt_rec)
  have e: "effectivePageLanguage exampleHost (js ''auto'') = js ''en''"
    by (simp add: effectivePageLanguage_def exampleHost_def)
  show ?thesis
    using translateBatch_all_attempts_fail[of "[helloItem]" "\<lambda>k. Throws" exampleHost "\<lambda>k. False"
        "js ''es''" "js ''auto''" 3 "initialPage (\<lambda>n. [])", OF _ f]
    by (simp add: u e)
qed

lemma replacedIds_append: "replacedIds (a @ b) = replacedIds a @ replacedIds b"
  by (induction a rule: replacedIds.induct) auto

lemma replaceTextNode_fst: "fst (replaceTextNode i t s) = replaceSucceeds s i"
  by (simp add: replaceTextNode_def markTranslated_def replaceSucceeds_def Let_def split: option.split)

lemma replaceTextNode_parents:
  "parentElement (snd (replaceTextNode i t s)) = parentElement s"
  "bareElements (snd (replaceTextNode i t s)) = bareElements s"
  by (simp_all add: replaceTextNode_def markTranslated_def emit_def Let_def split: option.split)

lemma replaceTextNode_node:
  "map_option node (map_of (textNodeMap (snd (replaceTextNode i t s))) j)
   = map_option node (map_of (textNodeMap s) j)"
  by (simp add: replaceTextNode_def markTranslated_def emit_def Let_def update_conv'
      split: option.split)

lemma replaceSucceeds_cong:
  assumes "map_option node (map_of (textNodeMap s') j) = map_option node (map_of (textNodeMap s) j)"
    and "parentElement s' = parentElement s" and "bareElements s' = bareElements s"
  shows "replaceSucceeds s' j = replaceSucceeds s j"
proof (cases "map_of (textNodeMap s) j")
  case None
  then have "map_of (textNodeMap s') j = None" using assms(1) by simp
  then show ?thesis using None by (simp add: replaceSucceeds_def)
next
  case (Some en)
  then obtain en' where e: "map_of (textNodeMap s') j = Some en'" "node en' = node en"
    using assms(1) by auto
  show ?thesis using Some e assms(2,3) by (simp add: replaceSucceeds_def split: option.split)
qed

lemma replaceTextNode_replaceSucceeds: "replaceSucceeds (snd (replaceTextNode i t s)) j = replaceSucceeds s j"
  by (rule replaceSucceeds_cong) (simp_all add: replaceTextNode_node replaceTextNode_parents)

lemma replaceTextNode_trace:
  "\<exists>e. trace (snd (replaceTextNode i t s)) = trace s @ [e] \<and>
       replacedIds [e] = (if replaceSucceeds s i then [i] else [])"
  by (simp add: replaceTextNode_def markTranslated_def replaceSucceeds_def emit_def Let_def
      split: option.split)

lemma applicable_cong: "(\<And>j. replaceSucceeds s' j = replaceSucceeds s j) \<Longrightarrow> applicable s' = applicable s"
  by (auto simp: applicable_def fun_eq_iff)

lemma failedFor_cong: "(\<And>j. replaceSucceeds s' j = replaceSucceeds s j) \<Longrightarrow> failedFor s' textItems = failedFor s textItems"
  by (auto simp: failedFor_def fun_eq_iff)

lemma processTranslations_spec:
  "processTranslations textItems ts a f rcv s = (a', f', rcv', s') \<Longrightarrow>
     a' = a + length (filter (applicable s) ts) \<and>
     f' = f @ concat (map (failedFor s textItems) ts) \<and>
     rcv' = rcv \<union> t_id ` set ts \<and>
     (\<forall>j. replaceSucceeds s' j = replaceSucceeds s j) \<and>
     (\<exists>ev. trace s' = trace s @ ev \<and> replacedIds ev = map t_id (filter (applicable s) ts))"
proof (induction ts arbitrary: a f rcv s)
  case Nil
  then show ?case by simp
next
  case (Cons t ts)
  show ?case
  proof (cases "\<not> truthy (t_error t) \<and> t_text t \<noteq> []")
    case False
    then have rec: "processTranslations textItems ts a (f @ failedFor s textItems t) (insert (t_id t) rcv) s
                    = (a', f', rcv', s')"
      using Cons.prems by (auto simp: failedFor_def split: if_splits)
    have na: "\<not> applicable s t" using False by (auto simp: applicable_def)
    from Cons.IH[OF rec] na show ?thesis by auto
  next
    case True
    obtain ok s1 where r: "replaceTextNode (t_id t) (t_text t) s = (ok, s1)"
      by (cases "replaceTextNode (t_id t) (t_text t) s")
    have ok: "ok = replaceSucceeds s (t_id t)" using replaceTextNode_fst[of "t_id t" "t_text t" s] r by simp
    have w1: "\<And>j. replaceSucceeds s1 j = replaceSucceeds s j"
      using replaceTextNode_replaceSucceeds[of "t_id t" "t_text t" s] r by simp
    obtain e where e: "trace s1 = trace s @ [e]" "replacedIds [e] = (if replaceSucceeds s (t_id t) then [t_id t] else [])"
      using replaceTextNode_trace[of "t_id t" "t_text t" s] r by auto
    have ap: "applicable s t = replaceSucceeds s (t_id t)" using True by (simp add: applicable_def)
    have rec: "processTranslations textItems ts (a + (if applicable s t then 1 else 0))
                 (f @ failedFor s textItems t) (insert (t_id t) rcv) s1 = (a', f', rcv', s')"
      using Cons.prems True r ok ap by (auto simp: failedFor_def split: if_splits)
    from Cons.IH[OF rec] obtain ev where ev:
      "a' = a + (if applicable s t then 1 else 0) + length (filter (applicable s1) ts)"
      "f' = (f @ failedFor s textItems t) @ concat (map (failedFor s1 textItems) ts)"
      "rcv' = insert (t_id t) rcv \<union> t_id ` set ts"
      "\<forall>j. replaceSucceeds s' j = replaceSucceeds s1 j"
      "trace s' = trace s1 @ ev" "replacedIds ev = map t_id (filter (applicable s1) ts)"
      by auto
    have c1: "applicable s1 = applicable s" by (rule applicable_cong) (rule w1)
    have c2: "failedFor s1 textItems = failedFor s textItems" by (rule failedFor_cong) (rule w1)
    have "trace s' = trace s @ (e # ev)" using e(1) ev(5) by simp
    moreover have "replacedIds (e # ev) = map t_id (filter (applicable s) (t # ts))"
      using replacedIds_append[of "[e]" ev] e(2) ev(6) ap c1 by simp
    ultimately show ?thesis using ev(1-4) c1 c2 w1 by auto
  qed
qed


lemma findItem_present:
  assumes "it \<in> set textItems"
  shows "\<exists>it'. findItem textItems (item_id it) = [it'] \<and> item_id it' = item_id it"
proof -
  have "find (\<lambda>x. item_id x = item_id it) textItems \<noteq> None"
    using assms by (auto simp: find_None_iff)
  then obtain it' where f: "find (\<lambda>x. item_id x = item_id it) textItems = Some it'" by auto
  then have "item_id it' = item_id it" by (auto simp: find_Some_iff)
  then show ?thesis using f by (simp add: findItem_def)
qed

lemma suspend_registry:
  "textNodeMap (suspend cancelAt s) = textNodeMap s"
  "parentElement (suspend cancelAt s) = parentElement s"
  "bareElements (suspend cancelAt s) = bareElements s"
  "textContent (suspend cancelAt s) = textContent s"
  "translatedNodeSet (suspend cancelAt s) = translatedNodeSet s"
  by (simp_all add: suspend_def onCancelTranslation_def stopAutoTranslate_def emit_def Let_def)

lemma emit_fields:
  "textNodeMap (emit e s) = textNodeMap s"
  "parentElement (emit e s) = parentElement s"
  "bareElements (emit e s) = bareElements s"
  "textContent (emit e s) = textContent s"
  "translatedNodeSet (emit e s) = translatedNodeSet s"
  by (simp_all add: emit_def)

lemma replaceSucceeds_suspend: "replaceSucceeds (suspend cancelAt s) j = replaceSucceeds s j"
  by (simp add: replaceSucceeds_def suspend_registry split: option.split)

lemma replaceSucceeds_emit: "replaceSucceeds (emit e s) j = replaceSucceeds s j"
  by (simp add: replaceSucceeds_def emit_fields split: option.split)

lemma clock_emit: "clock (emit e s) = clock s"
  by (simp add: emit_def)

lemma clock_suspend: "clock (suspend cancelAt s) = clock s + 1"
  by (simp add: suspend_def onCancelTranslation_def stopAutoTranslate_def emit_def Let_def)

text \<open>
  The attempts that fail at the transport level before the first one that does not: each
  takes two suspension points (the request and the timer), replaces no node and leaves
  the registry alone.
\<close>

lemma attemptLoop_skip_failed:
  assumes "attempt + k < retries"
    and "\<forall>j<k. transportFailure (translator (clock s + 2 * j))"
  shows "\<exists>sk. attemptLoop cancelAt translator textItems tgt pl retries attempt s
               = attemptLoop cancelAt translator textItems tgt pl retries (attempt + k) sk \<and>
              clock sk = clock s + 2 * k \<and>
              (\<forall>j. replaceSucceeds sk j = replaceSucceeds s j) \<and>
              (\<exists>ev. trace sk = trace s @ ev \<and> replacedIds ev = [])"
  using assms
proof (induction k arbitrary: attempt s)
  case 0
  show ?case by (rule exI[of _ s]) simp
next
  case (Suc k)
  define s1 where "s1 = suspend cancelAt (emit (SendTranslate textItems tgt pl) s)"
  define s2 where "s2 = emit (LogAttemptFailed (attempt + 1) retries) s1"
  define s3 where "s3 = suspend cancelAt (emit (SetTimeout (500 * (attempt + 1))) s2)"
  have a: "attempt < retries" "attempt < retries - 1" using Suc.prems(1) by simp_all
  have tf: "transportFailure (translator (clock s))" using Suc.prems(2) by force
  have eq: "attemptLoop cancelAt translator textItems tgt pl retries attempt s
            = attemptLoop cancelAt translator textItems tgt pl retries (attempt + 1) s3"
    using a tf by (subst attemptLoop.simps) (simp add: s1_def s2_def s3_def Let_def)
  have c3: "clock s3 = clock s + 2"
    by (simp add: s3_def s2_def s1_def clock_suspend clock_emit)
  have w3: "replaceSucceeds s3 j = replaceSucceeds s j" for j
    by (simp add: s3_def s2_def s1_def replaceSucceeds_suspend replaceSucceeds_emit)
  obtain ev3 where ev3: "trace s3 = trace s @ ev3" "replacedIds ev3 = []"
    by (auto simp: s3_def s2_def s1_def trace_suspend trace_emit replacedIds_append)
  have f: "\<forall>j<k. transportFailure (translator (clock s3 + 2 * j))"
  proof (intro allI impI)
    fix j assume "j < k"
    then have "Suc j < Suc k" by simp
    then have "transportFailure (translator (clock s + 2 * Suc j))" using Suc.prems(2) by blast
    then show "transportFailure (translator (clock s3 + 2 * j))" by (simp add: c3)
  qed
  have b: "attempt + 1 + k < retries" using Suc.prems(1) by simp
  from Suc.IH[OF b f] obtain sk ev where sk:
    "attemptLoop cancelAt translator textItems tgt pl retries (attempt + 1) s3
       = attemptLoop cancelAt translator textItems tgt pl retries (attempt + 1 + k) sk"
    "clock sk = clock s3 + 2 * k"
    "\<forall>j. replaceSucceeds sk j = replaceSucceeds s3 j"
    "trace sk = trace s3 @ ev" "replacedIds ev = []"
    by blast
  show ?case
  proof (intro exI[of _ sk] conjI)
    show "attemptLoop cancelAt translator textItems tgt pl retries attempt s
          = attemptLoop cancelAt translator textItems tgt pl retries (attempt + Suc k) sk"
      using eq sk(1) by simp
    show "clock sk = clock s + 2 * Suc k" using sk(2) c3 by simp
    show "\<forall>j. replaceSucceeds sk j = replaceSucceeds s j" using sk(3) w3 by simp
    show "\<exists>ev. trace sk = trace s @ ev \<and> replacedIds ev = []"
      by (rule exI[of _ "ev3 @ ev"]) (simp add: sk(4,5) ev3 replacedIds_append)
  qed
qed

lemma translateBatch_reply:
  assumes ne: "textItems \<noteq> []" and r: "k < retries"
    and fl: "\<forall>j<k. transportFailure (translator (clock s + 2 * j))"
    and ok: "\<not> transportFailure (translator (clock s + 2 * k))"
    and ts: "translationsOf (translator (clock s + 2 * k)) = ts"
    and run: "translateBatch h cancelAt translator textItems targetLanguage sourceLanguage retries s
              = (result, s')"
  shows "replacedIds (eventsSince s s') = map t_id (filter (applicable s) ts) \<and>
         applied result = length (filter (applicable s) ts) \<and>
         failed result = concat (map (failedFor s textItems) ts) @
                         filter (\<lambda>it. item_id it \<notin> t_id ` set ts) textItems \<and>
         (\<forall>it \<in> set textItems.
            (\<exists>t \<in> set ts. t_id t = item_id it \<and> truthy (t_error t)) \<or> item_id it \<notin> t_id ` set ts
            \<longrightarrow> item_id it \<in> item_id ` set (failed result))"
proof -
  define pl where "pl = effectivePageLanguage h sourceLanguage"
  define s0 where "s0 = emit (LogBatchCalled (length textItems)) s"
  have fl0: "\<forall>j<k. transportFailure (translator (clock s0 + 2 * j))"
    using fl by (simp add: s0_def clock_emit)
  from attemptLoop_skip_failed[where attempt = 0 and k = k and retries = retries and s = s0
      and translator = translator and cancelAt = cancelAt and textItems = textItems
      and tgt = targetLanguage and pl = pl, OF _ fl0] r
  obtain sk ev0 where sk:
    "attemptLoop cancelAt translator textItems targetLanguage pl retries 0 s0
       = attemptLoop cancelAt translator textItems targetLanguage pl retries k sk"
    "clock sk = clock s0 + 2 * k"
    "\<forall>j. replaceSucceeds sk j = replaceSucceeds s0 j"
    "trace sk = trace s0 @ ev0" "replacedIds ev0 = []"
    by auto
  define s1 where "s1 = suspend cancelAt (emit (SendTranslate textItems targetLanguage pl) sk)"
  have ck: "clock sk = clock s + 2 * k" using sk(2) by (simp add: s0_def clock_emit)
  have "attemptLoop cancelAt translator textItems targetLanguage pl retries k sk
        = processResponse textItems ts s1"
    using r ok ts by (subst attemptLoop.simps) (simp add: s1_def Let_def ck)
  then have eq: "(result, s') = processResponse textItems ts s1"
    using ne run sk(1) by (simp add: translateBatch_def s0_def pl_def)
  obtain a f rcv where p: "processTranslations textItems ts 0 [] {} s1 = (a, f, rcv, s')"
    and res: "result = \<lparr>applied = a, failed = f @ filter (\<lambda>it. item_id it \<notin> rcv) textItems\<rparr>"
    using eq by (auto simp: processResponse_def split: prod.splits)
  have w: "\<And>j. replaceSucceeds s1 j = replaceSucceeds s j"
    using sk(3) by (simp add: s1_def s0_def replaceSucceeds_suspend replaceSucceeds_emit)
  have c1: "applicable s1 = applicable s" by (rule applicable_cong) (rule w)
  have c2: "failedFor s1 textItems = failedFor s textItems" by (rule failedFor_cong) (rule w)
  from processTranslations_spec[OF p] obtain ev where ev:
    "a = length (filter (applicable s) ts)"
    "f = concat (map (failedFor s textItems) ts)"
    "rcv = t_id ` set ts"
    "trace s' = trace s1 @ ev" "replacedIds ev = map t_id (filter (applicable s) ts)"
    unfolding c1 c2 by auto
  obtain pre where pre: "trace s1 = trace s @ pre" "replacedIds pre = []"
    using sk(4,5) by (auto simp: s1_def s0_def trace_suspend trace_emit replacedIds_append)
  have "eventsSince s s' = pre @ ev" using ev(4) pre(1) by (simp add: eventsSince_def)
  then have A: "replacedIds (eventsSince s s') = map t_id (filter (applicable s) ts)"
    using pre(2) ev(5) by (simp add: replacedIds_append)
  have B: "applied result = length (filter (applicable s) ts)" using res ev(1) by simp
  have C: "failed result = concat (map (failedFor s textItems) ts) @
                         filter (\<lambda>it. item_id it \<notin> t_id ` set ts) textItems"
    using res ev(2,3) by simp
  have D: "item_id it \<in> item_id ` set (failed result)"
    if it: "it \<in> set textItems"
      and c: "(\<exists>t \<in> set ts. t_id t = item_id it \<and> truthy (t_error t)) \<or> item_id it \<notin> t_id ` set ts" for it
  proof (cases "item_id it \<notin> t_id ` set ts")
    case True
    then have "it \<in> set (failed result)" using it unfolding C by simp
    then show ?thesis by blast
  next
    case False
    then obtain t where t: "t \<in> set ts" "t_id t = item_id it" "truthy (t_error t)" using c by blast
    obtain it' where it': "findItem textItems (item_id it) = [it']" "item_id it' = item_id it"
      using findItem_present[OF it] by blast
    have "failedFor s textItems t = [it']" using t(2,3) it'(1) by (simp add: failedFor_def)
    then have "it' \<in> set (failed result)" using t(1) unfolding C by force
    then show ?thesis using it'(2) by (metis imageI)
  qed
  show ?thesis using A B C D by blast
qed

text \<open>
  Claim C1, as amended. Take a batch that is not empty and the first of the \<open>retries\<close>
  attempts whose response is not a transport failure, attempt \<open>k\<close> (counted from 0; the
  request of attempt \<open>j\<close> is answered by \<open>translator (clock s + 2 * j)\<close>, because every
  failed attempt that is followed by another one passes two suspension points, the
  request and the timer). \<^verbatim>\<open>translateBatch\<close> processes that response and no other: in the
  order of the response, \<^verbatim>\<open>replaceTextNode\<close> succeeds for every entry that has a text, no
  per-item error and an id for which it returns true, whether or not the id was
  requested, once per entry, and \<open>applied\<close> counts these entries. Every requested id that
  is returned with an error or is absent from the response is among the failed items.
  For the request \<^verbatim>\<open>[{id:1,text:"Hello"},{id:2,text:"World"}]\<close> and the response
  \<^verbatim>\<open>{translations:[{id:1,text:"Hola"}]}\<close> the result is \<open>applied = 1\<close> and
  \<open>failed = [{id:2,text:"World"}]\<close>, also when the response comes at the second attempt
  (the witness).
\<close>

theorem translateBatch_classification:
  assumes "textItems \<noteq> []" and "k < retries"
    and "\<forall>j<k. transportFailure (translator (clock s + 2 * j))"
    and "\<not> transportFailure (translator (clock s + 2 * k))"
    and "translationsOf (translator (clock s + 2 * k)) = ts"
    and "translateBatch h cancelAt translator textItems targetLanguage sourceLanguage retries s
         = (result, s')"
  shows "replacedIds (eventsSince s s') = map t_id (filter (applicable s) ts) \<and>
         applied result = length (filter (applicable s) ts) \<and>
         failed result = concat (map (failedFor s textItems) ts) @
                         filter (\<lambda>it. item_id it \<notin> t_id ` set ts) textItems \<and>
         (\<forall>it \<in> set textItems.
            (\<exists>t \<in> set ts. t_id t = item_id it \<and> truthy (t_error t)) \<or> item_id it \<notin> t_id ` set ts
            \<longrightarrow> item_id it \<in> item_id ` set (failed result))"
  using assms by (rule translateBatch_reply)

lemma holaOnly_ok: "\<not> transportFailure holaOnly"
  by (simp add: transportFailure_def holaOnly_def truthy_def)

lemma holaMundo_ok: "\<not> transportFailure holaMundo"
  by (simp add: transportFailure_def holaMundo_def truthy_def)

lemma replaceSucceeds_threeNodePage: "replaceSucceeds threeNodePage 1" "replaceSucceeds threeNodePage 2"
  by (simp_all add: replaceSucceeds_def threeNodePage_def initialPage_def)

theorem translateBatch_classification_witness:
  "replacedIds (eventsSince threeNodePage
      (snd (translateBatch exampleHost (\<lambda>k. False) (\<lambda>k. holaOnly) [helloItem, worldItem]
              (js ''es'') (js ''auto'') 3 threeNodePage))) = [1] \<and>
   fst (translateBatch exampleHost (\<lambda>k. False) (\<lambda>k. holaOnly) [helloItem, worldItem]
          (js ''es'') (js ''auto'') 3 threeNodePage)
     = \<lparr>applied = 1, failed = [worldItem]\<rparr> \<and>
   transportFailure (holaAtSecondAttempt 0) \<and>
   replacedIds (eventsSince threeNodePage
      (snd (translateBatch exampleHost (\<lambda>k. False) holaAtSecondAttempt [helloItem, worldItem]
              (js ''es'') (js ''auto'') 3 threeNodePage))) = [1] \<and>
   fst (translateBatch exampleHost (\<lambda>k. False) holaAtSecondAttempt [helloItem, worldItem]
          (js ''es'') (js ''auto'') 3 threeNodePage)
     = \<lparr>applied = 1, failed = [worldItem]\<rparr>"
proof -
  have c: "clock threeNodePage = 0" by (simp add: threeNodePage_def initialPage_def)
  have ts: "translationsOf ((\<lambda>k. holaOnly) (clock threeNodePage + 2 * 0))
            = [\<lparr>t_id = 1, t_text = js ''Hola'', t_error = None\<rparr>]"
    by (simp add: translationsOf_def holaOnly_def)
  have f2: "\<forall>j<1. transportFailure (holaAtSecondAttempt (clock threeNodePage + 2 * j))"
    by (simp add: c holaAtSecondAttempt_def transportFailure_def)
  have ok2: "\<not> transportFailure (holaAtSecondAttempt (clock threeNodePage + 2 * 1))"
    by (simp add: c holaAtSecondAttempt_def holaOnly_ok)
  have ts2: "translationsOf (holaAtSecondAttempt (clock threeNodePage + 2 * 1))
            = [\<lparr>t_id = 1, t_text = js ''Hola'', t_error = None\<rparr>]"
    by (simp add: c holaAtSecondAttempt_def translationsOf_def holaOnly_def)
  have ap: "applicable threeNodePage \<lparr>t_id = 1, t_text = js ''Hola'', t_error = None\<rparr>"
    using replaceSucceeds_threeNodePage(1) by (simp add: applicable_def truthy_def js_def)
  have ff: "failedFor threeNodePage [helloItem, worldItem] \<lparr>t_id = 1, t_text = js ''Hola'', t_error = None\<rparr> = []"
    using replaceSucceeds_threeNodePage(1) by (simp add: failedFor_def truthy_def js_def)
  have ids: "item_id helloItem = 1" "item_id worldItem = 2"
    by (simp_all add: helloItem_def worldItem_def)
  have first: "replacedIds (eventsSince threeNodePage
      (snd (translateBatch exampleHost (\<lambda>k. False) (\<lambda>k. holaOnly) [helloItem, worldItem]
              (js ''es'') (js ''auto'') 3 threeNodePage))) = [1] \<and>
   fst (translateBatch exampleHost (\<lambda>k. False) (\<lambda>k. holaOnly) [helloItem, worldItem]
          (js ''es'') (js ''auto'') 3 threeNodePage)
     = \<lparr>applied = 1, failed = [worldItem]\<rparr>"
    using translateBatch_classification
      [where textItems = "[helloItem, worldItem]" and retries = 3 and k = 0 and h = exampleHost
         and s = threeNodePage and translator = "\<lambda>k. holaOnly"
         and cancelAt = "\<lambda>k. False" and targetLanguage = "js ''es''" and sourceLanguage = "js ''auto''",
       OF _ _ _ _ ts prod.collapse[symmetric]]
      holaOnly_ok ap ff ids
    by (cases "fst (translateBatch exampleHost (\<lambda>k. False) (\<lambda>k. holaOnly) [helloItem, worldItem]
          (js ''es'') (js ''auto'') 3 threeNodePage)") simp
  have second: "replacedIds (eventsSince threeNodePage
      (snd (translateBatch exampleHost (\<lambda>k. False) holaAtSecondAttempt [helloItem, worldItem]
              (js ''es'') (js ''auto'') 3 threeNodePage))) = [1] \<and>
   fst (translateBatch exampleHost (\<lambda>k. False) holaAtSecondAttempt [helloItem, worldItem]
          (js ''es'') (js ''auto'') 3 threeNodePage)
     = \<lparr>applied = 1, failed = [worldItem]\<rparr>"
    using translateBatch_classification
      [where textItems = "[helloItem, worldItem]" and retries = 3 and k = 1 and h = exampleHost
         and s = threeNodePage and translator = holaAtSecondAttempt
         and cancelAt = "\<lambda>k. False" and targetLanguage = "js ''es''" and sourceLanguage = "js ''auto''",
       OF _ _ f2 ok2 ts2 prod.collapse[symmetric]]
      ap ff ids
    by (cases "fst (translateBatch exampleHost (\<lambda>k. False) holaAtSecondAttempt [helloItem, worldItem]
          (js ''es'') (js ''auto'') 3 threeNodePage)") simp
  have "transportFailure (holaAtSecondAttempt 0)"
    by (simp add: holaAtSecondAttempt_def transportFailure_def)
  then show ?thesis using first second by blast
qed

text \<open>
  The claim as stated fails: for the request \<^verbatim>\<open>[{id:1,text:"Hello"}]\<close> and the response
  \<^verbatim>\<open>{translations:[{id:1,text:"Hola"},{id:2,text:"Mundo"}]}\<close> the node of id 2, which was
  not requested, is replaced as well, and \<open>applied\<close> is 2.
\<close>

theorem translateBatch_applies_unrequested_id:
  "replacedIds (eventsSince threeNodePage
      (snd (translateBatch exampleHost (\<lambda>k. False) (\<lambda>k. holaMundo) [helloItem]
              (js ''es'') (js ''auto'') 3 threeNodePage))) = [1, 2] \<and>
   2 \<notin> item_id ` set [helloItem] \<and>
   applied (fst (translateBatch exampleHost (\<lambda>k. False) (\<lambda>k. holaMundo) [helloItem]
              (js ''es'') (js ''auto'') 3 threeNodePage)) = 2 \<and>
   textContent (snd (translateBatch exampleHost (\<lambda>k. False) (\<lambda>k. holaMundo) [helloItem]
              (js ''es'') (js ''auto'') 3 threeNodePage)) 12 = js ''Mundo''"
proof -
  have tc: "textContent (snd (translateBatch exampleHost (\<lambda>k. False) (\<lambda>k. holaMundo) [helloItem]
              (js ''es'') (js ''auto'') 3 threeNodePage)) 12 = js ''Mundo''"
    by (simp add: translateBatch_def attemptLoop.simps holaMundo_def transportFailure_def truthy_def
        translationsOf_def processResponse_def replaceTextNode_def markTranslated_def suspend_def
        emit_def Let_def threeNodePage_def initialPage_def helloItem_def js_def leadingSpace_def
        isWhiteSpace_def effectivePageLanguage_def exampleHost_def)
  have ts: "translationsOf ((\<lambda>k. holaMundo) (clock threeNodePage + 2 * 0))
            = [\<lparr>t_id = 1, t_text = js ''Hola'', t_error = None\<rparr>,
               \<lparr>t_id = 2, t_text = js ''Mundo'', t_error = None\<rparr>]"
    by (simp add: translationsOf_def holaMundo_def)
  have ap: "applicable threeNodePage \<lparr>t_id = 1, t_text = js ''Hola'', t_error = None\<rparr>"
    "applicable threeNodePage \<lparr>t_id = 2, t_text = js ''Mundo'', t_error = None\<rparr>"
    using replaceSucceeds_threeNodePage by (simp_all add: applicable_def truthy_def js_def)
  show ?thesis
    using translateBatch_reply
      [where textItems = "[helloItem]" and retries = 3 and k = 0 and h = exampleHost
         and s = threeNodePage and translator = "\<lambda>k. holaMundo"
         and cancelAt = "\<lambda>k. False" and targetLanguage = "js ''es''" and sourceLanguage = "js ''auto''",
       OF _ _ _ _ ts prod.collapse[symmetric]]
      holaMundo_ok ap tc
    by (simp add: helloItem_def)
qed

section \<open>Properties of the node registry\<close>

lemma trailingSpace_eq: "trailingSpace s = rev (takeWhile isWhiteSpace (rev s))"
proof (induction s)
  case Nil
  show ?case by simp
next
  case (Cons c s)
  show ?case
  proof (cases "list_all isWhiteSpace s")
    case True
    then have all: "\<And>x. x \<in> set (rev s) \<Longrightarrow> isWhiteSpace x" by (simp add: list_all_iff)
    have "takeWhile isWhiteSpace (rev s @ [c]) = rev s @ takeWhile isWhiteSpace [c]"
      by (rule takeWhile_append2) (rule all)
    moreover have tw: "takeWhile isWhiteSpace (rev s) = rev s"
      by (rule takeWhile_eq_all_conv[THEN iffD2]) (use all in blast)
    have "trailingSpace s = s" unfolding Cons.IH tw by simp
    moreover note \<open>trailingSpace s = s\<close>
    ultimately show ?thesis using True by simp
  next
    case False
    then obtain x where x: "x \<in> set (rev s)" "\<not> isWhiteSpace x" by (auto simp: list_all_iff)
    have "takeWhile isWhiteSpace (rev s @ [c]) = takeWhile isWhiteSpace (rev s)"
      using x by (meson takeWhile_append1)
    then show ?thesis using False Cons.IH by simp
  qed
qed

lemma leadingSpace_all: "list_all isWhiteSpace (leadingSpace s)"
  by (simp add: leadingSpace_def list_all_iff) (meson set_takeWhileD)

lemma trailingSpace_all: "list_all isWhiteSpace (trailingSpace s)"
  by (simp add: trailingSpace_eq list_all_iff) (meson set_takeWhileD)

lemma whitespace_decomposition:
  assumes "\<exists>c \<in> set s. \<not> isWhiteSpace c"
  shows "s = leadingSpace s @ trim s @ trailingSpace s"
proof -
  define d where "d = dropWhile isWhiteSpace s"
  have s: "s = takeWhile isWhiteSpace s @ d" by (simp add: d_def)
  have "d \<noteq> []" using assms by (auto simp: d_def dropWhile_eq_Nil_conv)
  then have "\<not> isWhiteSpace (hd d)" unfolding d_def by (metis hd_dropWhile)
  moreover have "hd d \<in> set (rev d)" using \<open>d \<noteq> []\<close> by simp
  ultimately have tw: "takeWhile isWhiteSpace (rev d @ rev (takeWhile isWhiteSpace s))
                       = takeWhile isWhiteSpace (rev d)"
    by (meson takeWhile_append1)
  have "rev s = rev d @ rev (takeWhile isWhiteSpace s)" by (subst s) simp
  then have t: "trailingSpace s = rev (takeWhile isWhiteSpace (rev d))"
    using tw by (simp add: trailingSpace_eq)
  have "rev d = takeWhile isWhiteSpace (rev d) @ dropWhile isWhiteSpace (rev d)" by simp
  then have "d = rev (dropWhile isWhiteSpace (rev d)) @ rev (takeWhile isWhiteSpace (rev d))"
    by (metis rev_append rev_rev_ident)
  then have "d = trim s @ trailingSpace s" using t by (simp add: trim_def d_def)
  then show ?thesis using s by (simp add: leadingSpace_def)
qed

lemma dropWhile_all: "list_all P xs \<Longrightarrow> dropWhile P (xs @ ys) = dropWhile P ys"
  by (induction xs) auto

lemma trim_affixes:
  assumes "list_all isWhiteSpace a" and "list_all isWhiteSpace b"
  shows "trim (a @ t @ b) = trim t"
proof (cases "list_all isWhiteSpace t")
  case True
  then have "list_all isWhiteSpace (a @ t @ b)" using assms by simp
  then have 1: "dropWhile isWhiteSpace (a @ t @ b) = []"
    unfolding list_all_iff dropWhile_eq_Nil_conv by blast
  have 2: "dropWhile isWhiteSpace t = []"
    using True unfolding list_all_iff dropWhile_eq_Nil_conv by blast
  show ?thesis unfolding trim_def 1 2 by simp
next
  case False
  then obtain c where c: "c \<in> set t" "\<not> isWhiteSpace c" by (auto simp: list_all_iff)
  have "dropWhile isWhiteSpace (t @ b) = dropWhile isWhiteSpace t @ b"
    using c by (meson dropWhile_append1)
  then have "rev (dropWhile isWhiteSpace (a @ t @ b)) = rev b @ rev (dropWhile isWhiteSpace t)"
    using dropWhile_all[OF assms(1), of "t @ b"] by simp
  moreover have "list_all isWhiteSpace (rev b)" using assms(2) by (simp add: list_all_iff)
  ultimately have "dropWhile isWhiteSpace (rev (dropWhile isWhiteSpace (a @ t @ b)))
                   = dropWhile isWhiteSpace (rev (dropWhile isWhiteSpace t))"
    by (simp add: dropWhile_all)
  then show ?thesis by (simp add: trim_def)
qed

text \<open>
  What \<^verbatim>\<open>replaceTextNode\<close> does for an id that the registry has. The text of the node
  becomes the leading white space of \<open>originalText\<close>, then the translated text, then the
  trailing white space of \<open>originalText\<close>, in every case, and no other text changes. When
  the node has no parent element, or one with \<^verbatim>\<open>style\<close> and \<^verbatim>\<open>dataset\<close>, the function
  returns true, the node joins the processed set and the entry records \<open>translatedText\<close>
  with \<open>translated\<close> set. When the parent element has neither, it returns false and
  leaves the processed set and the registry as they were. The two affixes consist of
  white space, and around the trimmed text they make up a text that has a character
  other than white space.
\<close>

lemma replaceTextNode_cases:
  assumes "map_of (textNodeMap s) ident = Some en"
  shows
   "textContent (snd (replaceTextNode ident t s))
      = (textContent s)
          (node en := leadingSpace (originalText en) @ t @ trailingSpace (originalText en)) \<and>
    fst (replaceTextNode ident t s) = replaceSucceeds s ident \<and>
    (replaceSucceeds s ident \<longrightarrow>
       translatedNodeSet (snd (replaceTextNode ident t s)) = insert (node en) (translatedNodeSet s) \<and>
       map_of (textNodeMap (snd (replaceTextNode ident t s))) ident
         = Some (en\<lparr>translated := True, translatedText := Some t\<rparr>)) \<and>
    (\<not> replaceSucceeds s ident \<longrightarrow>
       translatedNodeSet (snd (replaceTextNode ident t s)) = translatedNodeSet s \<and>
       textNodeMap (snd (replaceTextNode ident t s)) = textNodeMap s) \<and>
    list_all isWhiteSpace (leadingSpace (originalText en)) \<and>
    list_all isWhiteSpace (trailingSpace (originalText en)) \<and>
    ((\<exists>c \<in> set (originalText en). \<not> isWhiteSpace c) \<longrightarrow>
       originalText en
         = leadingSpace (originalText en) @ trim (originalText en) @ trailingSpace (originalText en))"
  using assms whitespace_decomposition[of "originalText en"]
  by (simp add: replaceTextNode_def markTranslated_def replaceSucceeds_def emit_def Let_def
      update_conv' leadingSpace_all trailingSpace_all split: option.split)

text \<open>
  Claim C7. The claim fails for an attached node whose parent element has no \<^verbatim>\<open>dataset\<close>
  (an element that is not an HTML, SVG or MathML element): inside the \<^verbatim>\<open>try\<close> block the
  text is written first and \<^verbatim>\<open>parent.dataset.translated = 'true'\<close> throws next, so
  \<^verbatim>\<open>replaceTextNode\<close> returns false with the translation on the page, the node not in the
  processed set and the entry without \<open>translatedText\<close> and \<open>translated\<close>. Here the entry of
  id 1 has the node 11 with the text \<^verbatim>\<open>" Hello "\<close>, whose parent is such an element. For
  every other entry the claim holds (lemma \<open>replaceTextNode_cases\<close>).
\<close>

theorem replaceTextNode_bare_parent:
  "map_of (textNodeMap bareParentPage) 1
     = Some \<lparr>node = 11, originalText = js '' Hello '', translated = False, translatedText = None\<rparr> \<and>
   parentElement bareParentPage 11 = Some 11 \<and>
   fst (replaceTextNode 1 (js ''Hola'') bareParentPage) = False \<and>
   textContent (snd (replaceTextNode 1 (js ''Hola'') bareParentPage)) 11 = js '' Hola '' \<and>
   translatedNodeSet (snd (replaceTextNode 1 (js ''Hola'') bareParentPage)) = {} \<and>
   map_of (textNodeMap (snd (replaceTextNode 1 (js ''Hola'') bareParentPage))) 1
     = Some \<lparr>node = 11, originalText = js '' Hello '', translated = False, translatedText = None\<rparr> \<and>
   eventsSince bareParentPage (snd (replaceTextNode 1 (js ''Hola'') bareParentPage))
     = [LogReplaceFailed 1]"
  by (simp add: bareParentPage_def threeNodePage_def initialPage_def replaceTextNode_def
      markTranslated_def emit_def eventsSince_def Let_def leadingSpace_def js_def isWhiteSpace_def)

lemma restoreOriginalLoop_textNodeMap: "textNodeMap (restoreOriginalLoop es s) = textNodeMap s"
proof (induction es arbitrary: s)
  case (Cons p es)
  then show ?case by (cases p) simp
qed simp

lemma restoreOriginalLoop_cache: "hasTranslationCache (restoreOriginalLoop es s) = hasTranslationCache s"
proof (induction es arbitrary: s)
  case (Cons p es)
  then show ?case by (cases p) simp
qed simp

lemma restoreOriginalLoop_trace: "trace (restoreOriginalLoop es s) = trace s"
proof (induction es arbitrary: s)
  case (Cons p es)
  then show ?case by (cases p) simp
qed simp

lemmas restoreOriginalLoop_frame =
  restoreOriginalLoop_textNodeMap restoreOriginalLoop_cache restoreOriginalLoop_trace

lemma restoreOriginalLoop_text:
  assumes "textContent s (node en) = originalText en \<and> node en \<notin> translatedNodeSet s
           \<or> (ident, en) \<in> set es"
    and "\<forall>(j, e') \<in> set es. node e' = node en \<longrightarrow> e' = en"
    and "translated en"
  shows "textContent (restoreOriginalLoop es s) (node en) = originalText en \<and>
         node en \<notin> translatedNodeSet (restoreOriginalLoop es s)"
  using assms
proof (induction es arbitrary: s)
  case Nil
  then show ?case by simp
next
  case (Cons p es)
  obtain j e where p: "p = (j, e)" by (cases p)
  define s1 where "s1 = (if translated e
        then s\<lparr>textContent := (textContent s)(node e := originalText e),
               translatedNodeSet := translatedNodeSet s - {node e}\<rparr>
        else s)"
  have step: "restoreOriginalLoop (p # es) s = restoreOriginalLoop es s1"
    by (simp add: p s1_def)
  have uniq: "\<forall>(j, e') \<in> set es. node e' = node en \<longrightarrow> e' = en" using Cons.prems(2) by auto
  have "textContent s1 (node en) = originalText en \<and> node en \<notin> translatedNodeSet s1
        \<or> (ident, en) \<in> set es"
  proof (cases "node e = node en")
    case True
    then have "e = en" using Cons.prems(2) p by auto
    then show ?thesis using Cons.prems(3) by (simp add: s1_def)
  next
    case False
    then have "textContent s1 (node en) = textContent s (node en)"
      "node en \<notin> translatedNodeSet s1 \<longleftrightarrow> node en \<notin> translatedNodeSet s"
      by (auto simp: s1_def)
    moreover have "(ident, en) \<in> set (p # es) \<Longrightarrow> (ident, en) \<in> set es" using False p by auto
    ultimately show ?thesis using Cons.prems(1) by auto
  qed
  from Cons.IH[OF this uniq Cons.prems(3)] show ?case unfolding step by simp
qed

lemma restoreCachedLoop_trace: "trace (snd (restoreCachedLoop es c s)) = trace s"
proof (induction es arbitrary: c s)
  case (Cons p es)
  then show ?case by (cases p) (simp split: option.split)
qed simp

lemma restoreCachedLoop_text:
  assumes "textContent s (node en) = t \<or> ((ident, en) \<in> set es \<and> originalText en \<noteq> t)"
    and "\<forall>(j, e') \<in> set es. node e' = node en \<longrightarrow> e' = en"
    and "translatedText en = Some t" and "t \<noteq> []"
  shows "textContent (snd (restoreCachedLoop es c s)) (node en) = t"
  using assms
proof (induction es arbitrary: c s)
  case Nil
  then show ?case by simp
next
  case (Cons p es)
  obtain j e where p: "p = (j, e)" by (cases p)
  have uniq: "\<forall>(j, e') \<in> set es. node e' = node en \<longrightarrow> e' = en" using Cons.prems(2) by auto
  show ?case
  proof (cases "\<exists>t'. translatedText e = Some t' \<and> t' \<noteq> [] \<and> originalText e \<noteq> t'")
    case True
    then obtain t' where t': "translatedText e = Some t'" "t' \<noteq> []" "originalText e \<noteq> t'"
      by blast
    define s1 where "s1 = s\<lparr>textContent := (textContent s)(node e := t'),
                          textNodeMap := map (\<lambda>(k, e). if k = j then (k, e\<lparr>translated := True\<rparr>) else (k, e))
                                             (textNodeMap s),
                          translatedNodeSet := insert (node e) (translatedNodeSet s)\<rparr>"
    have step: "restoreCachedLoop (p # es) c s = restoreCachedLoop es (c + 1) s1"
      using t' by (simp add: p s1_def)
    have "textContent s1 (node en) = t \<or> ((ident, en) \<in> set es \<and> originalText en \<noteq> t)"
    proof (cases "node e = node en")
      case True
      then have "e = en" using Cons.prems(2) p by auto
      then show ?thesis using t'(1) Cons.prems(3) by (simp add: s1_def)
    next
      case False
      then show ?thesis using Cons.prems(1) p by (auto simp: s1_def)
    qed
    then show ?thesis unfolding step using Cons.IH uniq Cons.prems(3,4) by blast
  next
    case False
    then have step: "restoreCachedLoop (p # es) c s = restoreCachedLoop es c s"
      by (auto simp: p split: option.split)
    have "textContent s (node en) = t \<or> ((ident, en) \<in> set es \<and> originalText en \<noteq> t)"
    proof (cases "(ident, en) = p")
      case True
      then have "e = en" using p by simp
      then show ?thesis using False Cons.prems(1,3,4) by auto
    next
      case False
      then show ?thesis using Cons.prems(1) by auto
    qed
    then show ?thesis unfolding step using Cons.IH uniq Cons.prems(3,4) by blast
  qed
qed

lemma restoreOriginalText_fields:
  "textNodeMap (restoreOriginalText s) = textNodeMap s"
  "hasTranslationCache (restoreOriginalText s) = hasTranslationCache s"
  "trace (restoreOriginalText s) = trace s"
  "textContent (restoreOriginalText s) = textContent (restoreOriginalLoop (textNodeMap s) s)"
  "translatedNodeSet (restoreOriginalText s) = translatedNodeSet (restoreOriginalLoop (textNodeMap s) s)"
  by (simp_all add: restoreOriginalText_def stopAutoTranslate_def restoreOriginalLoop_frame)

lemma restoreCachedTranslations_trace:
  "trace (snd (restoreCachedTranslations s)) = trace s"
  using restoreCachedLoop_trace[of "textNodeMap s" 0 s]
  by (cases "restoreCachedLoop (textNodeMap s) 0 s") (simp add: restoreCachedTranslations_def)

text \<open>
  Claim C8, as amended. \<^verbatim>\<open>restoreOriginalText\<close> leaves the registry as it is, so every
  entry keeps \<open>translated\<close> and \<open>translatedText\<close>, and neither function adds an event to
  the trace: the Translator is not called. When \<open>hasTranslationCache\<close> is not set,
  \<^verbatim>\<open>restoreCachedTranslations\<close> returns false and changes nothing. When it is set, take an
  entry to which a translation has been applied (it is marked translated and caches a
  translated text, which is never empty: \<^verbatim>\<open>translateBatch\<close> and the handler of
  \<^verbatim>\<open>PARTIAL_TRANSLATION\<close> test \<^verbatim>\<open>t.text\<close> before they call \<^verbatim>\<open>replaceTextNode\<close>) and whose node
  is the node of no other entry. \<^verbatim>\<open>restoreOriginalText\<close> writes \<open>originalText\<close> to the node
  and removes it from the processed set, and \<^verbatim>\<open>restoreCachedTranslations\<close> after it leaves
  the node with the text that \<^verbatim>\<open>replaceTextNode\<close> had displayed, up to the white space at
  its two ends.
\<close>

theorem restore_round_trip:
  "textNodeMap (restoreOriginalText s) = textNodeMap s \<and>
   trace (snd (restoreCachedTranslations (restoreOriginalText s))) = trace s \<and>
   (\<not> hasTranslationCache s \<longrightarrow>
      restoreCachedTranslations (restoreOriginalText s) = (False, restoreOriginalText s)) \<and>
   (hasTranslationCache s \<and> (ident, en) \<in> set (textNodeMap s) \<and>
    translated en \<and> translatedText en = Some t \<and> t \<noteq> [] \<and>
    (\<forall>(j, e') \<in> set (textNodeMap s). node e' = node en \<longrightarrow> e' = en) \<longrightarrow>
      textContent (restoreOriginalText s) (node en) = originalText en \<and>
      node en \<notin> translatedNodeSet (restoreOriginalText s) \<and>
      trim (textContent (snd (restoreCachedTranslations (restoreOriginalText s))) (node en))
        = trim (leadingSpace (originalText en) @ t @ trailingSpace (originalText en)))"
proof (intro conjI impI)
  define s1 where "s1 = restoreOriginalText s"
  show "textNodeMap (restoreOriginalText s) = textNodeMap s"
    by (rule restoreOriginalText_fields)
  show "trace (snd (restoreCachedTranslations (restoreOriginalText s))) = trace s"
    by (simp add: restoreCachedTranslations_trace restoreOriginalText_fields)
  show "restoreCachedTranslations (restoreOriginalText s) = (False, restoreOriginalText s)"
    if "\<not> hasTranslationCache s"
    using that by (simp add: restoreCachedTranslations_def restoreOriginalText_fields)
  assume a: "hasTranslationCache s \<and> (ident, en) \<in> set (textNodeMap s) \<and>
    translated en \<and> translatedText en = Some t \<and> t \<noteq> [] \<and>
    (\<forall>(j, e') \<in> set (textNodeMap s). node e' = node en \<longrightarrow> e' = en)"
  have o: "textContent s1 (node en) = originalText en \<and> node en \<notin> translatedNodeSet s1"
    unfolding s1_def restoreOriginalText_fields
    by (rule restoreOriginalLoop_text[where ident = ident]) (use a in auto)
  show "textContent (restoreOriginalText s) (node en) = originalText en"
    using o by (simp add: s1_def)
  show "node en \<notin> translatedNodeSet (restoreOriginalText s)"
    using o by (simp add: s1_def)
  have f: "textNodeMap s1 = textNodeMap s" "hasTranslationCache s1"
    using a by (simp_all add: s1_def restoreOriginalText_fields)
  have "textContent (snd (restoreCachedLoop (textNodeMap s) 0 s1)) (node en) = t"
    by (rule restoreCachedLoop_text[where ident = ident]) (use a o in auto)
  then have c: "textContent (snd (restoreCachedTranslations s1)) (node en) = t"
    using f by (cases "restoreCachedLoop (textNodeMap s) 0 s1") (simp add: restoreCachedTranslations_def)
  show "trim (textContent (snd (restoreCachedTranslations (restoreOriginalText s))) (node en))
        = trim (leadingSpace (originalText en) @ t @ trailingSpace (originalText en))"
    using c trim_affixes[OF leadingSpace_all trailingSpace_all, of "originalText en" t "originalText en"]
    by (simp add: s1_def)
qed

lemmas run_eval =
  translatePage_def extractTextNodes_def walkerNodes_def helloBody_def acceptNode_def
  isNodeProcessed_def shouldSkipElement_def SKIP_TAGS_def isTranslatableText_def MIN_TEXT_LENGTH_def
  registerNode_def sortByPriority_def score_eval asciiHasLetters_def
  initialPage_def helloTexts_def showStatus_def emit_def
  drainLoop.simps translateBatch_def attemptLoop.simps effectivePageLanguage_def suspend_def
  onCancelTranslation_def stopAutoTranslate_def transportFailure_def truthy_def translationsOf_def
  holaForZero_def processResponse_def replaceTextNode_def markTranslated_def leadingSpace_def
  finishRun_def completeRun_def retryRounds.simps startAutoTranslate_def

lemma cancelledRunPage_eval:
  "textContent cancelledRunPage 11 = js '' Hola ''"
  "hasTranslationCache cancelledRunPage = False"
  "textNodeMap cancelledRunPage
     = [(0, \<lparr>node = 11, originalText = js '' Hello '', translated = True,
              translatedText = Some (js ''Hola'')\<rparr>)]"
  unfolding cancelledRunPage_def by (simp_all add: run_eval)

lemma completedRunPage_eval:
  "textContent completedRunPage 11 = js '' Hola ''"
  "hasTranslationCache completedRunPage = True"
  "textNodeMap completedRunPage
     = [(0, \<lparr>node = 11, originalText = js '' Hello '', translated = True,
              translatedText = Some (js ''Hola'')\<rparr>)]"
  unfolding completedRunPage_def by (simp_all add: run_eval)

theorem restore_round_trip_witness:
  "hasTranslationCache completedRunPage \<and>
   textContent completedRunPage 11 = js '' Hola '' \<and>
   textContent (restoreOriginalText completedRunPage) 11 = js '' Hello '' \<and>
   trim (textContent (snd (restoreCachedTranslations (restoreOriginalText completedRunPage))) 11)
     = js ''Hola'' \<and>
   trace (snd (restoreCachedTranslations (restoreOriginalText completedRunPage))) = trace completedRunPage \<and>
   \<not> hasTranslationCache cancelledRunPage \<and>
   restoreCachedTranslations (restoreOriginalText cancelledRunPage)
     = (False, restoreOriginalText cancelledRunPage)"
proof -
  have t: "trim (leadingSpace (js '' Hello '') @ js ''Hola'' @ trailingSpace (js '' Hello '')) = js ''Hola''"
    by (simp add: trim_def leadingSpace_def js_def isWhiteSpace_def)
  show ?thesis
    using restore_round_trip
      [where s = completedRunPage and ident = 0 and t = "js ''Hola''"
         and en = "\<lparr>node = 11, originalText = js '' Hello '', translated = True,
                     translatedText = Some (js ''Hola'')\<rparr>"]
      restore_round_trip[where s = cancelledRunPage]
      t
    by (simp add: completedRunPage_eval cancelledRunPage_eval js_def)
qed

text \<open>
  The claim as stated fails: after a run that was cancelled while its only batch was in
  flight, the translation is applied and cached in the entry, but \<open>hasTranslationCache\<close>
  is not set, and \<^verbatim>\<open>restoreCachedTranslations\<close> after \<^verbatim>\<open>restoreOriginalText\<close> leaves the
  original text on the node.
\<close>

theorem restoreCached_without_cache_flag:
  "textContent cancelledRunPage 11 = js '' Hola '' \<and>
   map_of (textNodeMap cancelledRunPage) 0
     = Some \<lparr>node = 11, originalText = js '' Hello '', translated = True,
              translatedText = Some (js ''Hola'')\<rparr> \<and>
   textContent (snd (restoreCachedTranslations (restoreOriginalText cancelledRunPage))) 11
     = js '' Hello ''"
proof -
  have "hasTranslationCache (restoreOriginalText cancelledRunPage) = False"
    by (simp add: restoreOriginalText_fields cancelledRunPage_eval)
  then have "snd (restoreCachedTranslations (restoreOriginalText cancelledRunPage))
             = restoreOriginalText cancelledRunPage"
    by (simp add: restoreCachedTranslations_def)
  moreover have "textContent (restoreOriginalText cancelledRunPage) 11 = js '' Hello ''"
    by (simp add: restoreOriginalText_fields cancelledRunPage_eval)
  ultimately show ?thesis by (simp add: cancelledRunPage_eval)
qed

text \<open>
  The restriction to a node of one entry is needed. An added text node that the
  mutation observer reports twice is registered twice (it is not in the processed set
  yet), here under the ids 1 and 2. When the response lists id 2 before id 1, the
  translation of id 1 is applied last and is what the page displays, but
  \<^verbatim>\<open>restoreCachedTranslations\<close> goes through the registry in the order of the ids and
  leaves the translation of id 2.
\<close>

lemma restoreCached_shared_node:
  "hasTranslationCache worldAddedTwice \<and>
   map (\<lambda>(k, e). (k, node e, translatedText e)) (textNodeMap worldAddedTwice)
     = [(0, 11, Some (js ''Hola'')), (1, 12, Some (js ''Tierra'')), (2, 12, Some (js ''Mundo''))] \<and>
   textContent worldAddedTwice 12 = js ''Tierra'' \<and>
   textContent (snd (restoreCachedTranslations (restoreOriginalText worldAddedTwice))) 12
     = js ''Mundo''"
proof -
  have e: "hasTranslationCache worldAddedTwice"
    "textNodeMap worldAddedTwice
     = [(0, \<lparr>node = 11, originalText = js '' Hello '', translated = True,
              translatedText = Some (js ''Hola'')\<rparr>),
        (1, \<lparr>node = 12, originalText = js ''World'', translated = True,
              translatedText = Some (js ''Tierra'')\<rparr>),
        (2, \<lparr>node = 12, originalText = js ''World'', translated = True,
              translatedText = Some (js ''Mundo'')\<rparr>)]"
    "textContent worldAddedTwice 12 = js ''Tierra''"
    unfolding worldAddedTwice_def worldAdded_def completedRunPage_def
    by (simp_all add: run_eval extractNewTextNodes_def mundoThenTierra_def)
  have "textContent (snd (restoreCachedTranslations (restoreOriginalText worldAddedTwice))) 12
        = js ''Mundo''"
    by (simp add: restoreCachedTranslations_def restoreOriginalText_fields e js_def)
  then show ?thesis by (simp add: e)
qed

text \<open>
  What the round trip does to the white space is left out of the amended claim:
  \<^verbatim>\<open>restoreCachedTranslations\<close> writes \<open>translatedText\<close> alone, where \<^verbatim>\<open>replaceTextNode\<close> had
  put it between the white space of the original, so the node that displayed
  \<^verbatim>\<open>" Hola "\<close> displays \<^verbatim>\<open>"Hola"\<close> afterwards.
\<close>

lemma restoreCached_drops_white_space:
  "hasTranslationCache completedRunPage \<and>
   textContent completedRunPage 11 = js '' Hola '' \<and>
   textContent (snd (restoreCachedTranslations (restoreOriginalText completedRunPage))) 11
     = js ''Hola''"
  by (simp add: restoreCachedTranslations_def restoreOriginalText_fields completedRunPage_eval js_def)

section \<open>Properties of the run\<close>

text \<open>
  Claim C2, as amended. The answer to \<^verbatim>\<open>START_TRANSLATION\<close> is always
  \<^verbatim>\<open>{ started: true }\<close>. When a run is active, no second run starts and the request is
  not queued: the handler stores the glow setting of the request, if it carries one,
  shows the status "Translation already in progress..." as an error, and changes
  nothing else (the registry, the queue, the cancellation and progress flags and the
  clock are as before, and nothing is sent to the Translator).
\<close>

theorem start_while_busy:
  "started (fst (onStartTranslation h cancelAt translator body bodyAncestors message s)) = True \<and>
   (translationInProgress s \<longrightarrow>
      snd (onStartTranslation h cancelAt translator body bodyAncestors message s)
        = s\<lparr>showGlow := (case m_showGlow message of Some g \<Rightarrow> g | None \<Rightarrow> showGlow s),
            trace := trace s @ [ShowStatus AlreadyInProgress True]\<rparr>)"
  by (simp add: onStartTranslation_def translatePage_def showStatus_def emit_def Let_def
      split: option.split)

theorem start_while_busy_witness:
  "started (fst (onStartTranslation exampleHost (\<lambda>k. False) (\<lambda>k. holaOnly) helloBody
                   [plainElement ''HTML'' visibleRect] startWithGlow busyPage)) = True \<and>
   snd (onStartTranslation exampleHost (\<lambda>k. False) (\<lambda>k. holaOnly) helloBody
          [plainElement ''HTML'' visibleRect] startWithGlow busyPage)
     = busyPage\<lparr>showGlow := True, trace := [ShowStatus AlreadyInProgress True]\<rparr>"
proof -
  have b: "translationInProgress busyPage" "trace busyPage = []"
    by (simp_all add: busyPage_def threeNodePage_def initialPage_def)
  show ?thesis
    using start_while_busy[of exampleHost "\<lambda>k. False" "\<lambda>k. holaOnly" helloBody
        "[plainElement ''HTML'' visibleRect]" startWithGlow busyPage] b
    by (simp add: startWithGlow_def)
qed

text \<open>
  The claim as stated fails: a start request that arrives during a run is answered with
  \<open>started = True\<close> although its only effect is the busy status, and it changes the glow
  flag that the active run reads.
\<close>

theorem start_while_busy_reports_started:
  "translationInProgress busyPage \<and>
   started (fst (onStartTranslation exampleHost (\<lambda>k. False) (\<lambda>k. holaOnly) helloBody
                   [plainElement ''HTML'' visibleRect] startWithGlow busyPage)) = True \<and>
   eventsSince busyPage
     (snd (onStartTranslation exampleHost (\<lambda>k. False) (\<lambda>k. holaOnly) helloBody
             [plainElement ''HTML'' visibleRect] startWithGlow busyPage))
     = [ShowStatus AlreadyInProgress True] \<and>
   showGlow busyPage = False \<and>
   showGlow (snd (onStartTranslation exampleHost (\<lambda>k. False) (\<lambda>k. holaOnly) helloBody
                    [plainElement ''HTML'' visibleRect] startWithGlow busyPage)) = True"
  by (simp add: onStartTranslation_def translatePage_def showStatus_def emit_def Let_def
      startWithGlow_def busyPage_def threeNodePage_def initialPage_def eventsSince_def)

lemma noBatchAfterCancel_snoc:
  "noBatchAfterCancel (es @ [e]) = (noBatchAfterCancel es \<and> (isBatchCall e \<longrightarrow> CancelRequested \<notin> set es))"
proof (induction es rule: noBatchAfterCancel.induct)
  case 1
  show ?case by (cases e) auto
qed auto

lemma resendStep_cancelled:
  "fst (snd (foldl resendStep (l, c, k) es)) = (c \<or> CancelRequested \<in> set es)"
proof (induction es arbitrary: l c k)
  case Nil
  show ?case by simp
next
  case (Cons e es)
  show ?case by (cases e) (simp_all add: Cons.IH)
qed

lemma lastRequest_snoc:
  "lastRequest (es @ [e]) = (if isSend e \<and> CancelRequested \<notin> set es then Some e else lastRequest es)"
proof -
  obtain l c k where st: "foldl resendStep (None, False, True) es = (l, c, k)"
    by (cases "foldl resendStep (None, False, True) es") auto
  have c: "c = (CancelRequested \<in> set es)"
    using resendStep_cancelled[of None False True es] st by simp
  show ?thesis by (cases e) (simp_all add: lastRequest_def st c)
qed

lemma onlyResendsAfterCancel_snoc:
  "onlyResendsAfterCancel (es @ [e]) =
     (onlyResendsAfterCancel es \<and> (isSend e \<and> CancelRequested \<in> set es \<longrightarrow> lastRequest es = Some e))"
proof -
  obtain l c k where st: "foldl resendStep (None, False, True) es = (l, c, k)"
    by (cases "foldl resendStep (None, False, True) es") auto
  have c: "c = (CancelRequested \<in> set es)"
    using resendStep_cancelled[of None False True es] st by simp
  show ?thesis by (cases e) (simp_all add: onlyResendsAfterCancel_def lastRequest_def st c)
qed

lemma runInv_emit:
  assumes "runInv n0 s" and "e \<noteq> CancelRequested" and "\<not> isSend e"
    and "isBatchCall e \<longrightarrow> \<not> translationCancelled s"
  shows "runInv n0 (emit e s)"
  using assms
  by (auto simp: runInv_def emit_def noBatchAfterCancel_snoc onlyResendsAfterCancel_snoc)

lemma runInv_suspend: "runInv n0 s \<Longrightarrow> runInv n0 (suspend cancelAt s)"
  by (auto simp: runInv_def suspend_def onCancelTranslation_def stopAutoTranslate_def emit_def
      Let_def noBatchAfterCancel_snoc onlyResendsAfterCancel_snoc)

lemma replaceTextNode_event:
  "trace (snd (replaceTextNode i t s)) = trace s @ [LogNodeNotFound i] \<or>
   trace (snd (replaceTextNode i t s)) = trace s @ [LogReplaceFailed i] \<or>
   trace (snd (replaceTextNode i t s)) = trace s @ [LogReplaced i]"
  "translationCancelled (snd (replaceTextNode i t s)) = translationCancelled s"
  by (simp_all add: replaceTextNode_def markTranslated_def emit_def Let_def split: option.split)

lemma runInv_replaceTextNode:
  assumes "runInv n0 s"
  shows "runInv n0 (snd (replaceTextNode i t s))"
proof -
  obtain e where e: "trace (snd (replaceTextNode i t s)) = trace s @ [e]"
    "e \<noteq> CancelRequested" "\<not> isSend e" "\<not> isBatchCall e"
    using replaceTextNode_event(1)[of i t s] by auto
  show ?thesis using assms e replaceTextNode_event(2)[of i t s]
    by (auto simp: runInv_def noBatchAfterCancel_snoc onlyResendsAfterCancel_snoc)
qed

lemma runInv_cong:
  "trace s' = trace s \<Longrightarrow> translationCancelled s' = translationCancelled s \<Longrightarrow>
   runInv n0 s' = runInv n0 s"
  by (simp add: runInv_def)

lemma isSend_cases: "isSend e \<Longrightarrow> e \<noteq> CancelRequested \<and> \<not> isBatchCall e"
  by (cases e) auto

lemma inFlight_send:
  assumes "runInv n0 s" and "isSend e"
    and "\<not> translationCancelled s \<or> lastRequest (drop n0 (trace s)) = Some e"
  shows "inFlight n0 e (emit e s)"
  using assms isSend_cases[OF assms(2)]
  by (auto simp: inFlight_def runInv_def emit_def noBatchAfterCancel_snoc
      onlyResendsAfterCancel_snoc lastRequest_snoc)

lemma inFlight_emit:
  assumes "inFlight n0 req s" and "e \<noteq> CancelRequested" and "\<not> isSend e" and "\<not> isBatchCall e"
  shows "inFlight n0 req (emit e s)"
proof -
  have "runInv n0 (emit e s)" using assms by (simp add: inFlight_def runInv_emit)
  moreover have "lastRequest (drop n0 (trace (emit e s))) = Some req"
    using assms by (simp add: inFlight_def runInv_def emit_def lastRequest_snoc)
  ultimately show ?thesis by (simp add: inFlight_def)
qed

lemma inFlight_suspend:
  assumes "inFlight n0 req s"
  shows "inFlight n0 req (suspend cancelAt s)"
proof -
  have "runInv n0 (suspend cancelAt s)" using assms by (simp add: inFlight_def runInv_suspend)
  moreover have "lastRequest (drop n0 (trace (suspend cancelAt s))) = Some req"
    using assms
    by (simp add: inFlight_def runInv_def suspend_def onCancelTranslation_def stopAutoTranslate_def
        emit_def Let_def lastRequest_snoc)
  ultimately show ?thesis by (simp add: inFlight_def)
qed

lemma runInv_processResponse:
  assumes "runInv n0 s"
  shows "runInv n0 (snd (processResponse textItems ts s))"
proof -
  have "runInv n0 s \<longrightarrow> runInv n0 (snd (processResponse textItems ts s))"
    by (rule processResponse_rel[where R = "\<lambda>s s'. runInv n0 s \<longrightarrow> runInv n0 s'"])
       (simp_all add: runInv_replaceTextNode)
  then show ?thesis using assms by simp
qed

lemma runInv_attemptLoop:
  assumes "runInv n0 s"
    and "\<not> translationCancelled s \<or>
         lastRequest (drop n0 (trace s)) = Some (SendTranslate textItems targetLanguage pageLang)"
  shows "runInv n0 (snd (attemptLoop cancelAt translator textItems targetLanguage pageLang retries attempt s))"
  using assms
proof (induction cancelAt translator textItems targetLanguage pageLang retries attempt s rule: attemptLoop.induct)
  case (1 cancelAt translator textItems targetLanguage pageLang retries attempt s)
  define req where "req = SendTranslate textItems targetLanguage pageLang"
  show ?case
  proof (cases "attempt < retries")
    case False
    have "runInv n0 (emit (LogAllRetriesFailed (length textItems)) s)"
      using "1.prems"(1) by (rule runInv_emit) simp_all
    then show ?thesis using False by (subst attemptLoop.simps) simp
  next
    case True
    define s1 where "s1 = suspend cancelAt (emit req s)"
    have "inFlight n0 req (emit req s)"
      using "1.prems" by (intro inFlight_send) (simp_all add: req_def)
    then have s1: "inFlight n0 req s1" unfolding s1_def by (rule inFlight_suspend)
    show ?thesis
    proof (cases "transportFailure (translator (clock s))")
      case False
      have eq: "attemptLoop cancelAt translator textItems targetLanguage pageLang retries attempt s
                = processResponse textItems (translationsOf (translator (clock s))) s1"
        using True False by (subst attemptLoop.simps) (simp add: s1_def req_def Let_def)
      have "runInv n0 s1" using s1 by (simp add: inFlight_def)
      then show ?thesis unfolding eq by (rule runInv_processResponse)
    next
      case tf: True
      define s2 where "s2 = emit (LogAttemptFailed (attempt + 1) retries) s1"
      define s3 where "s3 = (if attempt < retries - 1
                          then suspend cancelAt (emit (SetTimeout (500 * (attempt + 1))) s2)
                          else s2)"
      have eq: "attemptLoop cancelAt translator textItems targetLanguage pageLang retries attempt s
                = attemptLoop cancelAt translator textItems targetLanguage pageLang retries (attempt + 1) s3"
        using True tf by (subst attemptLoop.simps) (simp add: s1_def s2_def s3_def req_def Let_def)
      have s2: "inFlight n0 req s2" unfolding s2_def using s1 by (rule inFlight_emit) simp_all
      have "inFlight n0 req (suspend cancelAt (emit (SetTimeout (500 * (attempt + 1))) s2))"
        by (rule inFlight_suspend, rule inFlight_emit[OF s2]) simp_all
      then have s3: "inFlight n0 req s3" using s2 by (simp add: s3_def)
      have "runInv n0 (snd (attemptLoop cancelAt translator textItems targetLanguage pageLang retries
                              (attempt + 1) s3))"
        using "1.IH"[OF True refl refl tf] s3
        unfolding s3_def s2_def s1_def req_def Let_def inFlight_def by simp
      then show ?thesis unfolding eq .
    qed
  qed
qed

lemma runInv_translateBatch:
  assumes "runInv n0 s" and "textItems = [] \<or> \<not> translationCancelled s"
  shows "runInv n0 (snd (translateBatch h cancelAt translator textItems targetLanguage sourceLanguage retries s))"
proof (cases "textItems = []")
  case True
  then show ?thesis using assms(1) by (simp add: translateBatch_def)
next
  case False
  then have nc: "\<not> translationCancelled s" using assms(2) by simp
  have "runInv n0 (emit (LogBatchCalled (length textItems)) s)"
    using assms(1) by (rule runInv_emit) (simp_all add: nc)
  moreover have "\<not> translationCancelled (emit (LogBatchCalled (length textItems)) s)"
    using nc by (simp add: emit_def)
  ultimately show ?thesis using False
    by (simp add: translateBatch_def runInv_attemptLoop)
qed

lemma translateBatch_keeps_cancelled:
  "translationCancelled s \<Longrightarrow>
   translationCancelled (snd (translateBatch h cancelAt translator textItems targetLanguage sourceLanguage retries s))"
proof -
  have "translationCancelled s \<longrightarrow>
   translationCancelled (snd (translateBatch h cancelAt translator textItems targetLanguage sourceLanguage retries s))"
    by (rule translateBatch_rel[where R = "\<lambda>s s'. translationCancelled s \<longrightarrow> translationCancelled s'"])
       (simp_all add: replaceTextNode_def markTranslated_def emit_def suspend_def
          onCancelTranslation_def stopAutoTranslate_def Let_def split: option.split)
  then show "translationCancelled s \<Longrightarrow>
   translationCancelled (snd (translateBatch h cancelAt translator textItems targetLanguage sourceLanguage retries s))"
    by simp
qed

lemma runInv_drainLoop:
  "runInv n0 s \<Longrightarrow>
   runInv n0 (snd (snd (drainLoop h cancelAt translator targetLanguage sourceLanguage totalApplied failedItems s)))"
proof (induction h cancelAt translator targetLanguage sourceLanguage totalApplied failedItems s
       rule: drainLoop.induct)
  case (1 h cancelAt translator targetLanguage sourceLanguage totalApplied failedItems s)
  show ?case
  proof (cases "pendingTranslationQueue s \<noteq> [] \<and> \<not> translationCancelled s")
    case False
    then show ?thesis using "1.prems" by (subst drainLoop.simps) auto
  next
    case True
    define s0 where "s0 = showStatus TranslatingPercent False
                      (s\<lparr>pendingTranslationQueue := drop 8 (pendingTranslationQueue s)\<rparr>)"
    obtain result s' where tb: "translateBatch h cancelAt translator (take 8 (pendingTranslationQueue s))
                   targetLanguage sourceLanguage 3 s0 = (result, s')"
      by (cases "translateBatch h cancelAt translator (take 8 (pendingTranslationQueue s))
                   targetLanguage sourceLanguage 3 s0")
    have "runInv n0 (s\<lparr>pendingTranslationQueue := drop 8 (pendingTranslationQueue s)\<rparr>)"
      using "1.prems" by (simp add: runInv_def)
    then have i0: "runInv n0 s0" unfolding s0_def showStatus_def
      by (rule runInv_emit) simp_all
    have "\<not> translationCancelled s0" using True by (simp add: s0_def showStatus_def emit_def)
    then have i1: "runInv n0 s'"
      using runInv_translateBatch[OF i0, of "take 8 (pendingTranslationQueue s)" h cancelAt translator
          targetLanguage sourceLanguage 3] tb by simp
    show ?thesis
    proof (cases "translationCancelled s'")
      case c: True
      have "runInv n0 (showStatus TranslationCancelled False s')"
        unfolding showStatus_def using i1 by (rule runInv_emit) simp_all
      then show ?thesis using True tb c
        by (subst drainLoop.simps) (simp add: s0_def)
    next
      case c: False
      have "runInv n0 (snd (snd (drainLoop h cancelAt translator targetLanguage sourceLanguage
                       (totalApplied + applied result) (failedItems @ failed result) s')))"
        using "1.IH"[OF True tb[unfolded s0_def, symmetric] c i1] .
      then show ?thesis using True tb c
        by (subst drainLoop.simps) (simp add: s0_def)
    qed
  qed
qed

lemma runInv_retryBatches:
  "runInv n0 s \<Longrightarrow>
   runInv n0 (snd (snd (retryBatches h cancelAt translator targetLanguage sourceLanguage itemsToRetry i
                             totalApplied failedItems s)))"
proof (induction h cancelAt translator targetLanguage sourceLanguage itemsToRetry i totalApplied failedItems s
       rule: retryBatches.induct)
  case (1 h cancelAt translator targetLanguage sourceLanguage itemsToRetry i totalApplied failedItems s)
  show ?case
  proof (cases "i < length itemsToRetry \<and> \<not> translationCancelled s")
    case False
    then show ?thesis using "1.prems" by (subst retryBatches.simps) auto
  next
    case True
    obtain result s' where tb: "translateBatch h cancelAt translator (take 4 (drop i itemsToRetry))
                   targetLanguage sourceLanguage 1 s = (result, s')"
      by (cases "translateBatch h cancelAt translator (take 4 (drop i itemsToRetry))
                   targetLanguage sourceLanguage 1 s")
    have i1: "runInv n0 s'"
      using runInv_translateBatch[OF "1.prems", of "take 4 (drop i itemsToRetry)" h cancelAt translator
          targetLanguage sourceLanguage 1] tb True by simp
    have "runInv n0 (snd (snd (retryBatches h cancelAt translator targetLanguage sourceLanguage itemsToRetry
              (i + 4) (totalApplied + applied result) (failedItems @ failed result) s')))"
      using "1.IH"[OF True tb[symmetric] i1] .
    then show ?thesis using True tb by (subst retryBatches.simps) simp
  qed
qed

lemma runInv_retryRounds:
  "runInv n0 s \<Longrightarrow>
   runInv n0 (snd (snd (retryRounds h cancelAt translator targetLanguage sourceLanguage retryAttempts
                             totalApplied failedItems s)))"
proof (induction h cancelAt translator targetLanguage sourceLanguage retryAttempts totalApplied failedItems s
       rule: retryRounds.induct)
  case (1 h cancelAt translator targetLanguage sourceLanguage retryAttempts totalApplied failedItems s)
  show ?case
  proof (cases "failedItems \<noteq> [] \<and> retryAttempts < 2 \<and> \<not> translationCancelled s")
    case False
    then show ?thesis using "1.prems" by (subst retryRounds.simps) auto
  next
    case True
    define s0 where "s0 = suspend cancelAt
                      (emit (SetTimeout (500 * (retryAttempts + 1)))
                         (showStatus TranslatingPercent False s))"
    obtain a f s' where rb: "retryBatches h cancelAt translator targetLanguage sourceLanguage failedItems 0
                              totalApplied [] s0 = (a, f, s')"
      by (cases "retryBatches h cancelAt translator targetLanguage sourceLanguage failedItems 0
                              totalApplied [] s0") auto
    have "runInv n0 (showStatus TranslatingPercent False s)"
      unfolding showStatus_def using "1.prems" by (rule runInv_emit) simp_all
    then have "runInv n0 (emit (SetTimeout (500 * (retryAttempts + 1))) (showStatus TranslatingPercent False s))"
      by (rule runInv_emit) simp_all
    then have i0: "runInv n0 s0" unfolding s0_def by (rule runInv_suspend)
    have i1: "runInv n0 s'"
      using runInv_retryBatches[OF i0, of h cancelAt translator targetLanguage sourceLanguage failedItems 0
          totalApplied "[]"] rb by simp
    have "runInv n0 (snd (snd (retryRounds h cancelAt translator targetLanguage sourceLanguage
              (retryAttempts + 1) a f s')))"
      using "1.IH"[OF True rb[unfolded s0_def, symmetric] refl i1] .
    then show ?thesis using True rb by (subst retryRounds.simps) (simp add: s0_def)
  qed
qed


lemma registerNode_frame:
  "trace (snd (registerNode h n ancestors s)) = trace s"
  "translationCancelled (snd (registerNode h n ancestors s)) = translationCancelled s"
  by (simp_all add: registerNode_def Let_def split: sum.split)

lemma walkLoop_frame:
  assumes "\<And>n ancestors s. f (snd (registerNode h n ancestors s)) = f s"
  shows "f (snd (walkLoop h onlyNew nodes s)) = f s"
proof (induction nodes arbitrary: s)
  case Nil
  show ?case by simp
next
  case (Cons p nodes)
  obtain n ancestors where p: "p = (n, ancestors)" by (cases p)
  show ?case
  proof (cases "acceptNode h onlyNew s n ancestors")
    case False
    then show ?thesis using Cons.IH by (simp add: p)
  next
    case True
    obtain r s1 where r: "registerNode h n ancestors s = (r, s1)"
      by (cases "registerNode h n ancestors s")
    have f1: "f s1 = f s" using assms[of n ancestors s] r by simp
    show ?thesis
    proof (cases r)
      case (Inl e)
      then show ?thesis using True r f1 by (simp add: p)
    next
      case (Inr it)
      obtain r2 s2 where w: "walkLoop h onlyNew nodes s1 = (r2, s2)"
        by (cases "walkLoop h onlyNew nodes s1")
      have "f s2 = f s1" using Cons.IH[of s1] w by simp
      then show ?thesis using True r Inr w f1 by (cases r2) (simp_all add: p)
    qed
  qed
qed

lemma walkLoop_trace: "trace (snd (walkLoop h onlyNew nodes s)) = trace s"
  by (rule walkLoop_frame) (rule registerNode_frame)

lemma walkLoop_cancelled:
  "translationCancelled (snd (walkLoop h onlyNew nodes s)) = translationCancelled s"
  by (rule walkLoop_frame) (rule registerNode_frame)

lemma extractTextNodes_snd:
  "snd (extractTextNodes h rootNode ancestors onlyNew s)
   = snd (walkLoop h onlyNew (walkerNodes ancestors rootNode)
            (if \<not> onlyNew then s\<lparr>textNodeMap := [], translatedNodeSet := {}, nextId := 0\<rparr> else s))"
  by (simp add: extractTextNodes_def Let_def split: prod.split sum.split)

lemma runInv_extractTextNodes:
  "runInv n0 (snd (extractTextNodes h rootNode ancestors onlyNew s)) = runInv n0 s"
  unfolding extractTextNodes_snd
  by (rule runInv_cong) (simp_all add: walkLoop_trace walkLoop_cancelled)

lemma runInv_completeRun:
  assumes "runInv n0 s"
  shows "runInv n0 (completeRun h cancelAt translator targetLanguage sourceLanguage enableAutoTranslate
                         totalItems totalApplied failedItems s)"
proof -
  obtain a f s1 where rr: "retryRounds h cancelAt translator targetLanguage sourceLanguage 0 totalApplied
                             failedItems s = (a, f, s1)"
    by (cases "retryRounds h cancelAt translator targetLanguage sourceLanguage 0 totalApplied failedItems s") auto
  have i1: "runInv n0 s1"
    using runInv_retryRounds[OF assms, of h cancelAt translator targetLanguage sourceLanguage 0
        totalApplied failedItems] rr by simp
  define s2 where "s2 = (if a > 0 then s1\<lparr>hasTranslationCache := True, isShowingTranslations := True\<rparr> else s1)"
  have "runInv n0 s2" using i1 by (simp add: s2_def runInv_def)
  then have i3: "runInv n0 (showStatus (TranslatedSummary a totalItems (length f)) False s2)"
    unfolding showStatus_def by (rule runInv_emit) simp_all
  then have "runInv n0 (startAutoTranslate targetLanguage
                 (showStatus (TranslatedSummary a totalItems (length f)) False s2))"
    by (simp add: runInv_def startAutoTranslate_def)
  then show ?thesis using i3 rr by (simp add: completeRun_def s2_def Let_def)
qed

lemma finishRun_trace: "trace (finishRun s) = trace s" "pendingTranslationQueue (finishRun s) = []"
  "translationInProgress (finishRun s) = False"
  by (simp_all add: finishRun_def)

text \<open>
  Claim C4. In every run of \<^verbatim>\<open>translatePage\<close> (started when no run is active), once a
  \<^verbatim>\<open>CANCEL_TRANSLATION\<close> message has been handled no call of \<^verbatim>\<open>translateBatch\<close> begins
  any more, neither in the drain loop nor in the retry phase: only the call in flight
  at that moment goes on until it returns, and every request that reaches the Translator
  after the cancellation repeats the request that was in flight.
  When the run ends the pending queue is empty and the run is no longer in progress.
\<close>

theorem cancellation_stops_dispatch:
  assumes "\<not> translationInProgress s"
  shows "noBatchAfterCancel
           (eventsSince s (translatePage h cancelAt translator body bodyAncestors targetLanguage
                             sourceLanguage enableAutoTranslate s)) \<and>
         onlyResendsAfterCancel
           (eventsSince s (translatePage h cancelAt translator body bodyAncestors targetLanguage
                             sourceLanguage enableAutoTranslate s)) \<and>
         pendingTranslationQueue (translatePage h cancelAt translator body bodyAncestors targetLanguage
                             sourceLanguage enableAutoTranslate s) = [] \<and>
         translationInProgress (translatePage h cancelAt translator body bodyAncestors targetLanguage
                             sourceLanguage enableAutoTranslate s) = False"
proof -
  define n0 where "n0 = length (trace s)"
  define sa where "sa = (showStatus ExtractingText False
                       (s\<lparr>currentTargetLanguage := targetLanguage, translationInProgress := True,
                          translationCancelled := False\<rparr>))\<lparr>scrollListener := True\<rparr>"
  obtain outcome s1 where ex: "extractTextNodes h body bodyAncestors False sa = (outcome, s1)"
    by (cases "extractTextNodes h body bodyAncestors False sa")
  have ia: "runInv n0 sa"
    by (simp add: runInv_def sa_def showStatus_def emit_def n0_def onlyResendsAfterCancel_def)
  have i1: "runInv n0 s1"
    using runInv_extractTextNodes[of n0 h body bodyAncestors False sa] ex ia by simp
  have fin: "noBatchAfterCancel (eventsSince s (finishRun x)) \<and>
             onlyResendsAfterCancel (eventsSince s (finishRun x)) \<and>
             pendingTranslationQueue (finishRun x) = [] \<and> translationInProgress (finishRun x) = False"
    if "runInv n0 x" for x
    using that by (simp add: runInv_def eventsSince_def finishRun_trace n0_def)
  show ?thesis
  proof (cases outcome)
    case (Inl e)
    have "runInv n0 (showStatus (TranslationError e) True s1)"
      unfolding showStatus_def using i1 by (rule runInv_emit) simp_all
    from fin[OF this] show ?thesis using assms ex Inl
      by (simp add: translatePage_def sa_def)
  next
    case (Inr textItems)
    show ?thesis
    proof (cases "textItems = []")
    case True
    have "runInv n0 ((showStatus NoTranslatableText True s1)\<lparr>translationInProgress := False\<rparr>)"
      using runInv_emit[OF i1, of "ShowStatus NoTranslatableText True"]
      by (simp add: showStatus_def runInv_def)
    from fin[OF this] show ?thesis using assms ex Inr True
      by (simp add: translatePage_def sa_def)
  next
    case False
    define sb where "sb = showStatus (FoundElements (length textItems)) False
                                (s1\<lparr>pendingTranslationQueue := textItems\<rparr>)"
    obtain a f s2 where dl: "drainLoop h cancelAt translator targetLanguage sourceLanguage 0 [] sb = (a, f, s2)"
      by (cases "drainLoop h cancelAt translator targetLanguage sourceLanguage 0 [] sb") auto
    have "runInv n0 (s1\<lparr>pendingTranslationQueue := textItems\<rparr>)" using i1 by (simp add: runInv_def)
    then have "runInv n0 sb" unfolding sb_def showStatus_def by (rule runInv_emit) simp_all
    then have i2: "runInv n0 s2"
      using runInv_drainLoop[of n0 sb h cancelAt translator targetLanguage sourceLanguage 0 "[]"] dl by simp
    define sc where "sc = (if \<not> translationCancelled s2
                             then completeRun h cancelAt translator targetLanguage sourceLanguage
                                    enableAutoTranslate (length textItems) a f s2
                             else s2)"
    have "runInv n0 sc" using i2 runInv_completeRun[OF i2] by (simp add: sc_def)
    from fin[OF this] show ?thesis using assms ex Inr False dl
      by (simp add: translatePage_def sa_def sb_def sc_def)
  qed
  qed
qed


lemma nine_eval:
  "filter isBatchCall (eventsSince (initialPage (\<lambda>n. js ''Hello'')) nineRunCancelled) = [LogBatchCalled 8]"
  "CancelRequested \<in> set (eventsSince (initialPage (\<lambda>n. js ''Hello'')) nineRunCancelled)"
  "ShowStatus (FoundElements 9) False \<in> set (eventsSince (initialPage (\<lambda>n. js ''Hello'')) nineRunCancelled)"
  "length (filter isSend (dropWhile (\<lambda>e. e \<noteq> CancelRequested)
             (eventsSince (initialPage (\<lambda>n. js ''Hello'')) nineRunCancelled))) = 2"
  unfolding nineRunCancelled_def nineBody_def
  by (simp_all add: translatePage_def extractTextNodes_def walkerNodes_def acceptNode_def
  isNodeProcessed_def shouldSkipElement_def SKIP_TAGS_def isTranslatableText_def MIN_TEXT_LENGTH_def
  registerNode_def sortByPriority_def score_eval asciiHasLetters_def
  initialPage_def showStatus_def emit_def
  drainLoop.simps translateBatch_def attemptLoop.simps effectivePageLanguage_def suspend_def
  onCancelTranslation_def stopAutoTranslate_def transportFailure_def truthy_def translationsOf_def
  processResponse_def finishRun_def eventsSince_def)


theorem cancellation_stops_dispatch_witness:
  "noBatchAfterCancel (eventsSince (initialPage (\<lambda>n. js ''Hello'')) nineRunCancelled) \<and>
   onlyResendsAfterCancel (eventsSince (initialPage (\<lambda>n. js ''Hello'')) nineRunCancelled) \<and>
   pendingTranslationQueue nineRunCancelled = [] \<and>
   translationInProgress nineRunCancelled = False \<and>
   ShowStatus (FoundElements 9) False \<in> set (eventsSince (initialPage (\<lambda>n. js ''Hello'')) nineRunCancelled) \<and>
   CancelRequested \<in> set (eventsSince (initialPage (\<lambda>n. js ''Hello'')) nineRunCancelled) \<and>
   filter isBatchCall (eventsSince (initialPage (\<lambda>n. js ''Hello'')) nineRunCancelled) = [LogBatchCalled 8] \<and>
   length (filter isSend (dropWhile (\<lambda>e. e \<noteq> CancelRequested)
             (eventsSince (initialPage (\<lambda>n. js ''Hello'')) nineRunCancelled))) = 2"
  using cancellation_stops_dispatch
    [of "initialPage (\<lambda>n. js ''Hello'')" exampleHost "\<lambda>k. k = 0" "\<lambda>k. Throws" nineBody
        "[plainElement ''HTML'' visibleRect]" "js ''es''" "js ''auto''" True]
    nine_eval
  by (simp add: nineRunCancelled_def initialPage_def)

section \<open>Properties of the text extractor\<close>

lemma update_absent: "k \<notin> fst ` set al \<Longrightarrow> AList.update k v al = al @ [(k, v)]"
  by (induction al) auto

lemma map_of_snoc_absent: "k \<notin> fst ` set al \<Longrightarrow> map_of (al @ [(k, v)]) k = Some v"
  by (induction al) auto

lemma extends_refl: "idsBelowNext s \<Longrightarrow> extends u s [] s"
  by (simp add: extends_def appendsTo_def newEntries_def)

lemma registerNode_returns:
  assumes "idsBelowNext s" and "registerNode h n ancestors s = (Inr it, s1)"
    and "u \<longrightarrow> n \<notin> translatedNodeSet s"
  shows "extends u s [it] s1"
proof -
  have absent: "nextId s \<notin> fst ` set (textNodeMap s)"
    using assms(1) by (auto simp: idsBelowNext_def list_all_iff)
  obtain p where it: "it = \<lparr>item_id = nextId s, item_text = trim (textContent s n), item_priority = p\<rparr>"
    and s1: "s1 = s\<lparr>nextId := nextId s + 1,
            textNodeMap := textNodeMap s @
              [(nextId s, \<lparr>node = n, originalText = textContent s n, translated = False, translatedText = None\<rparr>)]\<rparr>"
    using assms(2) update_absent[OF absent]
    by (cases "calculatePriority h ancestors (textContent s n)") (auto simp: registerNode_def Let_def)
  have "idsBelowNext s1" using assms(1) by (auto simp: s1 idsBelowNext_def list_all_iff)
  moreover have "appendsTo u s [it] s1"
    using assms(3) by (simp add: appendsTo_def newEntries_def s1 it)
  moreover have "resolves s1 it" using map_of_snoc_absent[OF absent]
    by (simp add: resolves_def s1 it)
  ultimately show ?thesis by (simp add: extends_def s1 it)
qed

lemma registerNode_throws:
  assumes "idsBelowNext s" and "registerNode h n ancestors s = (Inl e, s1)"
  shows "idsBelowNext s1 \<and> grows u s s1"
proof -
  have s1: "s1 = s\<lparr>nextId := nextId s + 1\<rparr>"
    using assms(2)
    by (cases "calculatePriority h ancestors (textContent s n)") (auto simp: registerNode_def Let_def)
  show ?thesis using assms(1)
    by (auto simp: s1 idsBelowNext_def list_all_iff grows_def newEntries_def)
qed

lemma resolves_mono:
  assumes "take (length (textNodeMap s1)) (textNodeMap s2) = textNodeMap s1" and "resolves s1 it"
  shows "resolves s2 it"
proof -
  obtain new where new: "textNodeMap s2 = textNodeMap s1 @ new"
    using assms(1) by (metis append_take_drop_id)
  obtain e where e: "map_of (textNodeMap s1) (item_id it) = Some e"
    using assms(2) by (auto simp: resolves_def split: option.splits)
  then have "map_of (textNodeMap s2) (item_id it) = Some e"
    unfolding new by (simp add: map_add_Some_iff)
  then show ?thesis using assms(2) e by (simp add: resolves_def)
qed

lemma extends_trans:
  assumes a: "extends u s i1 s1" and b: "extends u s1 i2 s2"
  shows "extends u s (i1 @ i2) s2"
proof -
  obtain n1 where n1: "textNodeMap s1 = textNodeMap s @ n1" "newEntries s s1 = n1"
    using a unfolding extends_def appendsTo_def newEntries_def by (metis append_take_drop_id)
  obtain n2 where n2: "textNodeMap s2 = textNodeMap s1 @ n2" "newEntries s1 s2 = n2"
    using b unfolding extends_def appendsTo_def newEntries_def by (metis append_take_drop_id)
  have ne: "newEntries s s2 = n1 @ n2" using n1 n2 by (simp add: newEntries_def)
  have ts: "translatedNodeSet s1 = translatedNodeSet s" using a by (simp add: extends_def appendsTo_def)
  have A: "appendsTo u s (i1 @ i2) s2"
    using a b unfolding extends_def appendsTo_def ne n1(2) n2(2) ts
    by (auto simp: n1(1) n2(1) image_Un)
  have r1: "\<forall>it \<in> set i1. resolves s2 it"
    using a b resolves_mono[of s1 s2] by (auto simp: extends_def appendsTo_def)
  have le: "nextId s \<le> nextId s1" "nextId s1 \<le> nextId s2"
    using a b by (auto simp: extends_def appendsTo_def)
  have d: "distinct (map item_id (i1 @ i2))"
    using a b by (fastforce simp: extends_def)
  have "\<forall>it \<in> set (i1 @ i2). nextId s \<le> item_id it \<and> item_id it < nextId s2 \<and> resolves s2 it"
    using a b r1 le by (fastforce simp: extends_def)
  then show ?thesis using a b A d by (simp add: extends_def)
qed

lemma grows_refl: "grows u s s"
  by (simp add: grows_def newEntries_def)

lemma extends_grows: "extends u s items s' \<Longrightarrow> grows u s s'"
  by (simp add: extends_def appendsTo_def grows_def)

lemma grows_trans:
  assumes a: "grows u s s1" and b: "grows u s1 s2"
  shows "grows u s s2"
proof -
  obtain n1 where n1: "textNodeMap s1 = textNodeMap s @ n1" "newEntries s s1 = n1"
    using a unfolding grows_def newEntries_def by (metis append_take_drop_id)
  obtain n2 where n2: "textNodeMap s2 = textNodeMap s1 @ n2" "newEntries s1 s2 = n2"
    using b unfolding grows_def newEntries_def by (metis append_take_drop_id)
  have ne: "newEntries s s2 = n1 @ n2" using n1 n2 by (simp add: newEntries_def)
  have ts: "translatedNodeSet s1 = translatedNodeSet s" using a by (simp add: grows_def)
  show ?thesis
    using a b unfolding grows_def ne n1(2) n2(2) ts
    by (auto simp: n1(1) n2(1))
qed

lemma extendsBy_ids: "extendsBy u s outcome s' \<Longrightarrow> idsBelowNext s'"
  by (cases outcome) (simp_all add: extendsBy_def extends_def)

lemma extendsBy_grows: "extendsBy u s outcome s' \<Longrightarrow> grows u s s'"
  by (cases outcome) (simp_all add: extendsBy_def extends_grows)

lemma extendsBy_after:
  assumes a: "extends u s i1 s1" and b: "extendsBy u s1 outcome s2"
  shows "extendsBy u s (case outcome of Inl e \<Rightarrow> Inl e | Inr i2 \<Rightarrow> Inr (i1 @ i2)) s2"
proof (cases outcome)
  case (Inl e)
  then have "idsBelowNext s2" "grows u s1 s2" using b by (simp_all add: extendsBy_def)
  then show ?thesis using Inl grows_trans[OF extends_grows[OF a]] by (simp add: extendsBy_def)
next
  case (Inr i2)
  then have "extends u s1 i2 s2" using b by (simp add: extendsBy_def)
  then show ?thesis using Inr extends_trans[OF a] by (simp add: extendsBy_def)
qed

lemma walkLoop_extendsBy:
  assumes "idsBelowNext s"
  shows "extendsBy onlyNew s (fst (walkLoop h onlyNew nodes s)) (snd (walkLoop h onlyNew nodes s))"
  using assms
proof (induction nodes arbitrary: s)
  case Nil
  then show ?case by (simp add: extendsBy_def extends_refl)
next
  case (Cons p nodes)
  obtain n ancestors where p: "p = (n, ancestors)" by (cases p)
  show ?case
  proof (cases "acceptNode h onlyNew s n ancestors")
    case False
    then show ?thesis using Cons.IH[OF Cons.prems] by (simp add: p)
  next
    case True
    obtain r s1 where r: "registerNode h n ancestors s = (r, s1)"
      by (cases "registerNode h n ancestors s")
    have un: "onlyNew \<longrightarrow> n \<notin> translatedNodeSet s"
      using True by (auto simp: acceptNode_def isNodeProcessed_def split: if_splits)
    show ?thesis
    proof (cases r)
      case (Inl e)
      have "idsBelowNext s1 \<and> grows onlyNew s s1"
        using registerNode_throws[OF Cons.prems] r Inl by simp
      then show ?thesis using True r Inl by (simp add: p extendsBy_def)
    next
      case (Inr it)
      have e1: "extends onlyNew s [it] s1"
        using registerNode_returns[OF Cons.prems _ un] r Inr by simp
      then have i1: "idsBelowNext s1" by (simp add: extends_def)
      obtain r2 s2 where w: "walkLoop h onlyNew nodes s1 = (r2, s2)"
        by (cases "walkLoop h onlyNew nodes s1")
      have e2: "extendsBy onlyNew s1 r2 s2" using Cons.IH[OF i1] w by simp
      have "extendsBy onlyNew s (case r2 of Inl e \<Rightarrow> Inl e | Inr i2 \<Rightarrow> Inr ([it] @ i2)) s2"
        by (rule extendsBy_after[OF e1 e2])
      then show ?thesis using True r Inr w by (cases r2) (simp_all add: p)
    qed
  qed
qed

lemma extends_permute:
  assumes "extends u s items s'" and "set items' = set items" and "length items' = length items"
    and "distinct (map item_id items')"
  shows "extends u s items' s'"
proof -
  have "item_id ` set items' = item_id ` set items" using assms(2) by simp
  then show ?thesis using assms unfolding extends_def appendsTo_def by auto
qed

lemma sortByPriority_facts:
  "set (sortByPriority items) = set items"
  "length (sortByPriority items) = length items"
  "sortedByPriority (sortByPriority items)"
  "distinct (map item_id items) \<Longrightarrow> distinct (map item_id (sortByPriority items))"
proof -
  show "set (sortByPriority items) = set items" by (simp add: sortByPriority_def)
  show "length (sortByPriority items) = length items" by (simp add: sortByPriority_def)
  have "sorted (map (\<lambda>it. - item_priority it) (sort_key (\<lambda>it. - item_priority it) items))"
    by (rule sorted_sort_key)
  then show "sortedByPriority (sortByPriority items)"
    by (simp add: sortedByPriority_def sortByPriority_def sorted_wrt_map)
  show "distinct (map item_id (sortByPriority items))" if "distinct (map item_id items)"
    using that by (simp add: sortByPriority_def distinct_map)
qed

lemma extendsBy_sorted:
  assumes "extendsBy u s outcome s'"
  shows "extendsBy u s (case outcome of Inl e \<Rightarrow> Inl e | Inr items \<Rightarrow> Inr (sortByPriority items)) s'"
proof (cases outcome)
  case (Inl e)
  then show ?thesis using assms by (simp add: extendsBy_def)
next
  case (Inr items)
  then have e: "extends u s items s'" using assms by (simp add: extendsBy_def)
  then have "extends u s (sortByPriority items) s'"
    by (rule extends_permute) (simp_all add: sortByPriority_facts extends_def e[unfolded extends_def])
  then show ?thesis using Inr by (simp add: extendsBy_def)
qed

lemma extractTextNodes_fst:
  "fst (extractTextNodes h rootNode ancestors onlyNew s)
   = (case fst (walkLoop h onlyNew (walkerNodes ancestors rootNode)
            (if \<not> onlyNew then s\<lparr>textNodeMap := [], translatedNodeSet := {}, nextId := 0\<rparr> else s)) of
        Inl e \<Rightarrow> Inl e
      | Inr items \<Rightarrow> Inr (sortByPriority items))"
  by (simp add: extractTextNodes_def Let_def split: prod.split sum.split)

lemma extractTextNodes_incremental_extends:
  assumes "idsBelowNext s"
  shows "extendsBy True s (fst (extractTextNodes h rootNode ancestors True s))
           (snd (extractTextNodes h rootNode ancestors True s))"
  unfolding extractTextNodes_fst extractTextNodes_snd
  using extendsBy_sorted[OF walkLoop_extendsBy[OF assms, of True h "walkerNodes ancestors rootNode"]]
  by simp

lemma extractTextNodes_full_extends:
  "extendsBy False (s\<lparr>textNodeMap := [], translatedNodeSet := {}, nextId := 0\<rparr>)
     (fst (extractTextNodes h rootNode ancestors False s))
     (snd (extractTextNodes h rootNode ancestors False s))"
proof -
  define s1 where "s1 = s\<lparr>textNodeMap := [], translatedNodeSet := {}, nextId := 0\<rparr>"
  have "idsBelowNext s1" by (simp add: s1_def idsBelowNext_def)
  from extendsBy_sorted[OF walkLoop_extendsBy[OF this, of False h "walkerNodes ancestors rootNode"]]
  show ?thesis unfolding extractTextNodes_fst extractTextNodes_snd by (simp add: s1_def)
qed

lemma newNodesLoop_extends:
  assumes "idsBelowNext s"
  shows "extendsBy True s (fst (newNodesLoop h addedNodes s)) (snd (newNodesLoop h addedNodes s))"
  using assms
proof (induction addedNodes arbitrary: s)
  case Nil
  then show ?case by (simp add: extendsBy_def extends_refl)
next
  case (Cons added rest)
  show ?case
  proof (cases added)
    case AddedOther
    then show ?thesis using Cons.IH[OF Cons.prems] by simp
  next
    case (AddedElement rootNode ancestors)
    obtain r s1 where x: "extractTextNodes h rootNode ancestors True s = (r, s1)"
      by (cases "extractTextNodes h rootNode ancestors True s")
    have e1: "extendsBy True s r s1"
      using extractTextNodes_incremental_extends[OF Cons.prems, of h rootNode ancestors] x by simp
    show ?thesis
    proof (cases r)
      case (Inl e)
      then show ?thesis using e1 x AddedElement by simp
    next
      case (Inr items)
      then have e1': "extends True s items s1" using e1 by (simp add: extendsBy_def)
      then have i1: "idsBelowNext s1" by (simp add: extends_def)
      obtain r2 s2 where w: "newNodesLoop h rest s1 = (r2, s2)"
        by (cases "newNodesLoop h rest s1")
      have e2: "extendsBy True s1 r2 s2" using Cons.IH[OF i1] w by simp
      have "extendsBy True s (case r2 of Inl e \<Rightarrow> Inl e | Inr i2 \<Rightarrow> Inr (items @ i2)) s2"
        by (rule extendsBy_after[OF e1' e2])
      then show ?thesis using x Inr w AddedElement by (cases r2) simp_all
    qed
  next
    case (AddedText n ancestors)
    show ?thesis
    proof (cases "\<not> isNodeProcessed s n \<and> isTranslatableText h (textContent s n) \<and>
                  (\<exists>parent up. ancestors = parent # up \<and> \<not> shouldSkipElement parent)")
      case False
      then have "newNodesLoop h (added # rest) s = newNodesLoop h rest s"
        unfolding AddedText by (cases ancestors) auto
      then show ?thesis using Cons.IH[OF Cons.prems] by simp
    next
      case True
      then obtain parent up where a: "ancestors = parent # up" "\<not> shouldSkipElement parent" by blast
      have un: "True \<longrightarrow> n \<notin> translatedNodeSet s" using True by (simp add: isNodeProcessed_def)
      obtain r s1 where r: "registerNode h n ancestors s = (r, s1)"
        by (cases "registerNode h n ancestors s")
      show ?thesis
      proof (cases r)
        case (Inl e)
        have "idsBelowNext s1 \<and> grows True s s1"
          using registerNode_throws[OF Cons.prems] r Inl by simp
        then show ?thesis using True a r Inl unfolding AddedText by (simp add: extendsBy_def)
      next
        case (Inr it)
        have e1: "extends True s [it] s1"
          using registerNode_returns[OF Cons.prems _ un] r Inr by simp
        then have i1: "idsBelowNext s1" by (simp add: extends_def)
        obtain r2 s2 where w: "newNodesLoop h rest s1 = (r2, s2)"
          by (cases "newNodesLoop h rest s1")
        have e2: "extendsBy True s1 r2 s2" using Cons.IH[OF i1] w by simp
        have "extendsBy True s (case r2 of Inl e \<Rightarrow> Inl e | Inr i2 \<Rightarrow> Inr ([it] @ i2)) s2"
          by (rule extendsBy_after[OF e1 e2])
        then show ?thesis using True a r Inr w unfolding AddedText by (cases r2) simp_all
      qed
    qed
  qed
qed

lemma extends_emittedOk:
  assumes "extends u s items s'" and "sortedByPriority items"
  shows "emittedOk items s'"
  using assms by (simp add: extends_def emittedOk_def list_all_iff)

lemma extends_freshIds:
  assumes "extends u s items s'" and "idsBelowNext s"
  shows "freshIds s items"
  using assms by (fastforce simp: extends_def freshIds_def idsBelowNext_def list_all_iff)

lemma extractNewTextNodes_fst:
  "fst (extractNewTextNodes h addedNodes s)
   = (case fst (newNodesLoop h addedNodes s) of
        Inl e \<Rightarrow> Inl e
      | Inr items \<Rightarrow> Inr (sortByPriority items))"
  "snd (extractNewTextNodes h addedNodes s) = snd (newNodesLoop h addedNodes s)"
  by (simp_all add: extractNewTextNodes_def split: prod.split sum.split)

lemma extractNewTextNodes_extends:
  assumes "idsBelowNext s"
  shows "extendsBy True s (fst (extractNewTextNodes h addedNodes s)) (snd (extractNewTextNodes h addedNodes s))"
  unfolding extractNewTextNodes_fst
  by (rule extendsBy_sorted[OF newNodesLoop_extends[OF assms]])

lemma sorted_extract:
  "fst (extractTextNodes h rootNode ancestors onlyNew s) = Inr items \<Longrightarrow> sortedByPriority items"
  "fst (extractNewTextNodes h addedNodes s) = Inr items \<Longrightarrow> sortedByPriority items"
  by (auto simp: extractTextNodes_fst extractNewTextNodes_fst sortByPriority_facts split: sum.splits)

text \<open>
  An extraction returns when the \<^verbatim>\<open>id\<close> of every element of the subtree and of every
  ancestor of the root is a string.
\<close>

lemma textNodesOf_chains:
  "(n, chain) \<in> set (textNodesOf ancestors d) \<Longrightarrow> set chain \<subseteq> set ancestors \<union> set (elementsOf d)"
proof (induction d arbitrary: ancestors)
  case (TextNode m)
  then show ?case by simp
next
  case (Element e children)
  then obtain c where c: "c \<in> set children" "(n, chain) \<in> set (textNodesOf (e # ancestors) c)"
    by auto
  from Element.IH[OF c] c(1) show ?case by auto
next
  case OtherNode
  then show ?case by simp
qed

lemma walkerNodes_chains:
  "(n, chain) \<in> set (walkerNodes ancestors rootNode)
   \<Longrightarrow> set chain \<subseteq> set ancestors \<union> set (elementsOf rootNode)"
proof (cases rootNode)
  case (Element e children)
  assume "(n, chain) \<in> set (walkerNodes ancestors rootNode)"
  then obtain c where c: "c \<in> set children" "(n, chain) \<in> set (textNodesOf (e # ancestors) c)"
    unfolding Element by (auto simp: walkerNodes_def)
  from textNodesOf_chains[OF c(2)] c(1) show ?thesis unfolding Element by auto
qed (simp_all add: walkerNodes_def)

lemma registerNode_returns_item:
  assumes "stringIds chain"
  shows "\<exists>it. fst (registerNode h n chain s) = Inr it"
proof -
  have "stringIds (take 15 chain)"
    using assms by (auto simp: stringIds_def list_all_iff dest: in_set_takeD)
  then obtain p where "calculatePriority h chain (textContent s n) = Inr p"
    using calculatePriority_returns by blast
  then show ?thesis by (simp add: registerNode_def Let_def)
qed

lemma walkLoop_returns:
  assumes "\<forall>(n, chain) \<in> set nodes. stringIds chain"
  shows "\<exists>items. fst (walkLoop h onlyNew nodes s) = Inr items"
  using assms
proof (induction nodes arbitrary: s)
  case Nil
  show ?case by simp
next
  case (Cons p nodes)
  obtain n chain where p: "p = (n, chain)" by (cases p)
  have c: "stringIds chain" using Cons.prems p by simp
  have r: "\<forall>(n, chain) \<in> set nodes. stringIds chain" using Cons.prems by simp
  show ?case
  proof (cases "acceptNode h onlyNew s n chain")
    case False
    then show ?thesis using Cons.IH[OF r] by (simp add: p)
  next
    case True
    obtain it s1 where it: "registerNode h n chain s = (Inr it, s1)"
      using registerNode_returns_item[OF c, of h n s] by (cases "registerNode h n chain s") auto
    obtain items where "fst (walkLoop h onlyNew nodes s1) = Inr items"
      using Cons.IH[OF r] by blast
    then show ?thesis using True it by (cases "walkLoop h onlyNew nodes s1") (simp add: p)
  qed
qed

lemma extractTextNodes_returns:
  assumes "stringIds (ancestors @ elementsOf rootNode)"
  shows "\<exists>items. fst (extractTextNodes h rootNode ancestors onlyNew s) = Inr items"
proof -
  have "stringIds chain" if "(n, chain) \<in> set (walkerNodes ancestors rootNode)" for n chain
    using walkerNodes_chains[OF that] assms by (auto simp: stringIds_def list_all_iff)
  then have "\<forall>(n, chain) \<in> set (walkerNodes ancestors rootNode). stringIds chain" by auto
  from walkLoop_returns[OF this] show ?thesis
    unfolding extractTextNodes_fst by (metis sum.simps(6))
qed

text \<open>
  Claim C5. The items that a full extraction emits have distinct ids, each id resolves in
  the registry to an entry whose \<open>originalText\<close>, trimmed, is the item's text, and the
  items are in descending order of priority. The same holds for an incremental
  extraction (\<^verbatim>\<open>extractTextNodes(root, true)\<close> and \<^verbatim>\<open>extractNewTextNodes\<close>) from a state that
  satisfies the registry invariant, and there no emitted id was in the registry before:
  ids are unique within the epoch. An extraction that throws emits nothing.
\<close>

theorem extraction_items_resolve:
  "(fst (extractTextNodes h rootNode ancestors False s0) = Inr items0 \<longrightarrow>
      emittedOk items0 (snd (extractTextNodes h rootNode ancestors False s0))) \<and>
   (idsBelowNext s \<longrightarrow>
      (fst (extractTextNodes h rootNode ancestors True s) = Inr items1 \<longrightarrow>
         emittedOk items1 (snd (extractTextNodes h rootNode ancestors True s)) \<and>
         freshIds s items1) \<and>
      (fst (extractNewTextNodes h addedNodes s) = Inr items2 \<longrightarrow>
         emittedOk items2 (snd (extractNewTextNodes h addedNodes s)) \<and>
         freshIds s items2))"
proof (intro conjI impI)
  assume r: "fst (extractTextNodes h rootNode ancestors False s0) = Inr items0"
  have "extends False (s0\<lparr>textNodeMap := [], translatedNodeSet := {}, nextId := 0\<rparr>) items0
          (snd (extractTextNodes h rootNode ancestors False s0))"
    using extractTextNodes_full_extends[of s0 h rootNode ancestors] r by (simp add: extendsBy_def)
  then show "emittedOk items0 (snd (extractTextNodes h rootNode ancestors False s0))"
    by (rule extends_emittedOk) (rule sorted_extract(1)[OF r])
next
  assume i: "idsBelowNext s" and r: "fst (extractTextNodes h rootNode ancestors True s) = Inr items1"
  have e: "extends True s items1 (snd (extractTextNodes h rootNode ancestors True s))"
    using extractTextNodes_incremental_extends[OF i, of h rootNode ancestors] r
    by (simp add: extendsBy_def)
  show "emittedOk items1 (snd (extractTextNodes h rootNode ancestors True s))"
    by (rule extends_emittedOk[OF e sorted_extract(1)[OF r]])
  show "freshIds s items1" by (rule extends_freshIds[OF e i])
next
  assume i: "idsBelowNext s" and r: "fst (extractNewTextNodes h addedNodes s) = Inr items2"
  have e: "extends True s items2 (snd (extractNewTextNodes h addedNodes s))"
    using extractNewTextNodes_extends[OF i, of h addedNodes] r by (simp add: extendsBy_def)
  show "emittedOk items2 (snd (extractNewTextNodes h addedNodes s))"
    by (rule extends_emittedOk[OF e sorted_extract(2)[OF r]])
  show "freshIds s items2" by (rule extends_freshIds[OF e i])
qed

lemma walkLoop_rel:
  assumes r: "\<And>s. R s s" and t: "\<And>a b c. R a b \<Longrightarrow> R b c \<Longrightarrow> R a c"
    and reg: "\<And>n ancestors s. R s (snd (registerNode h n ancestors s))"
  shows "R s (snd (walkLoop h onlyNew nodes s))"
proof (induction nodes arbitrary: s)
  case Nil
  show ?case by (simp add: r)
next
  case (Cons p nodes)
  obtain n ancestors where p: "p = (n, ancestors)" by (cases p)
  show ?case
  proof (cases "acceptNode h onlyNew s n ancestors")
    case False
    then show ?thesis using Cons.IH by (simp add: p)
  next
    case True
    obtain r1 s1 where rn: "registerNode h n ancestors s = (r1, s1)"
      by (cases "registerNode h n ancestors s")
    have a: "R s s1" using reg[of s n ancestors] rn by simp
    show ?thesis
    proof (cases r1)
      case (Inl e)
      then show ?thesis using True rn a by (simp add: p)
    next
      case (Inr it)
      obtain r2 s2 where w: "walkLoop h onlyNew nodes s1 = (r2, s2)"
        by (cases "walkLoop h onlyNew nodes s1")
      have "R s1 s2" using Cons.IH[of s1] w by simp
      then have "R s s2" using a t by blast
      then show ?thesis using True rn Inr w by (cases r2) (simp_all add: p)
    qed
  qed
qed

lemma neverShrinks_refl: "neverShrinks s s"
  by (simp add: neverShrinks_def)

lemma neverShrinks_trans: "neverShrinks a b \<Longrightarrow> neverShrinks b c \<Longrightarrow> neverShrinks a c"
  by (auto simp: neverShrinks_def)

lemma neverShrinks_registerNode: "neverShrinks s (snd (registerNode h n ancestors s))"
  by (auto simp: neverShrinks_def registerNode_def Let_def dom_update split: sum.split)

lemma neverShrinks_walkLoop: "neverShrinks s (snd (walkLoop h onlyNew nodes s))"
  by (rule walkLoop_rel[where R = neverShrinks])
     (rule neverShrinks_refl, erule neverShrinks_trans, assumption, rule neverShrinks_registerNode)

lemma neverShrinks_extractTextNodes:
  "neverShrinks s (snd (extractTextNodes h rootNode ancestors True s))"
  using neverShrinks_walkLoop[of s h True "walkerNodes ancestors rootNode"]
  by (simp add: extractTextNodes_snd)

lemma neverShrinks_newNodesLoop: "neverShrinks s (snd (newNodesLoop h addedNodes s))"
proof (induction addedNodes arbitrary: s)
  case Nil
  show ?case by (simp add: neverShrinks_refl)
next
  case (Cons added rest)
  show ?case
  proof (cases added)
    case AddedOther
    then show ?thesis using Cons.IH by simp
  next
    case (AddedElement rootNode ancestors)
    obtain r s1 where x: "extractTextNodes h rootNode ancestors True s = (r, s1)"
      by (cases "extractTextNodes h rootNode ancestors True s")
    have a: "neverShrinks s s1" using neverShrinks_extractTextNodes[of s h rootNode ancestors] x by simp
    show ?thesis
    proof (cases r)
      case (Inl e)
      then show ?thesis using a x AddedElement by simp
    next
      case (Inr items)
      obtain r2 s2 where w: "newNodesLoop h rest s1 = (r2, s2)"
        by (cases "newNodesLoop h rest s1")
      have "neverShrinks s s2" using a Cons.IH[of s1] w neverShrinks_trans by fastforce
      then show ?thesis using x Inr w AddedElement by (cases r2) simp_all
    qed
  next
    case (AddedText n ancestors)
    show ?thesis
    proof (cases "\<not> isNodeProcessed s n \<and> isTranslatableText h (textContent s n) \<and>
                  (\<exists>parent up. ancestors = parent # up \<and> \<not> shouldSkipElement parent)")
      case False
      then have "newNodesLoop h (added # rest) s = newNodesLoop h rest s"
        unfolding AddedText by (cases ancestors) auto
      then show ?thesis using Cons.IH by simp
    next
      case True
      then obtain parent up where c: "ancestors = parent # up" "\<not> shouldSkipElement parent" by blast
      obtain r s1 where r: "registerNode h n ancestors s = (r, s1)"
        by (cases "registerNode h n ancestors s")
      have a: "neverShrinks s s1" using neverShrinks_registerNode[of s h n ancestors] r by simp
      show ?thesis
      proof (cases r)
        case (Inl e)
        then show ?thesis using True c r a unfolding AddedText by simp
      next
        case (Inr it)
        obtain r2 s2 where w: "newNodesLoop h rest s1 = (r2, s2)"
          by (cases "newNodesLoop h rest s1")
        have "neverShrinks s s2" using a Cons.IH[of s1] w neverShrinks_trans by fastforce
        then show ?thesis using True c r Inr w unfolding AddedText by (cases r2) simp_all
      qed
    qed
  qed
qed

lemma neverShrinks_extractNewTextNodes:
  "neverShrinks s (snd (extractNewTextNodes h addedNodes s))"
  using neverShrinks_newNodesLoop[of s h addedNodes] by (simp add: extractNewTextNodes_fst)

lemma walkLoop_onlyNew_irrelevant:
  "translatedNodeSet s = {} \<Longrightarrow> walkLoop h False nodes s = walkLoop h True nodes s"
proof (induction nodes arbitrary: s)
  case Nil
  show ?case by simp
next
  case (Cons p nodes)
  obtain n ancestors where p: "p = (n, ancestors)" by (cases p)
  have a: "acceptNode h False s n ancestors = acceptNode h True s n ancestors"
    using Cons.prems by (simp add: acceptNode_def isNodeProcessed_def)
  obtain r s1 where r: "registerNode h n ancestors s = (r, s1)"
    by (cases "registerNode h n ancestors s")
  have "translatedNodeSet s1 = {}" using r Cons.prems
    by (auto simp: registerNode_def Let_def split: sum.splits)
  then have "walkLoop h False nodes s1 = walkLoop h True nodes s1" by (rule Cons.IH)
  then show ?case using a r Cons.IH[OF Cons.prems] by (cases r) (simp_all add: p)
qed

text \<open>
  Claim C6. A full extraction is the incremental walk from the state with the registry
  and the processed set emptied and the counter at zero: afterwards the processed set is
  empty and, when the extraction returns, the registry holds exactly the ids of the
  emitted items and the counter is their number. An incremental extraction removes no id
  from the registry, leaves the processed set as it is and never lowers the counter;
  from a state that satisfies the registry invariant it leaves the old entries in place
  and appends entries, none of them for a node of the processed set, and when it returns
  these are one entry per emitted item. What does not depend on the outcome holds also
  when the extraction throws.
\<close>

theorem extraction_modes:
  "extractTextNodes h rootNode ancestors False s0
     = extractTextNodes h rootNode ancestors True
         (s0\<lparr>textNodeMap := [], translatedNodeSet := {}, nextId := 0\<rparr>) \<and>
   translatedNodeSet (snd (extractTextNodes h rootNode ancestors False s0)) = {} \<and>
   (fst (extractTextNodes h rootNode ancestors False s0) = Inr items0 \<longrightarrow>
      fst ` set (textNodeMap (snd (extractTextNodes h rootNode ancestors False s0)))
        = item_id ` set items0 \<and>
      nextId (snd (extractTextNodes h rootNode ancestors False s0)) = int (length items0)) \<and>
   neverShrinks s (snd (extractTextNodes h rootNode ancestors True s)) \<and>
   neverShrinks s (snd (extractNewTextNodes h addedNodes s)) \<and>
   (idsBelowNext s \<longrightarrow>
      grows True s (snd (extractTextNodes h rootNode ancestors True s)) \<and>
      grows True s (snd (extractNewTextNodes h addedNodes s)) \<and>
      (fst (extractTextNodes h rootNode ancestors True s) = Inr items1 \<longrightarrow>
         appendsTo True s items1 (snd (extractTextNodes h rootNode ancestors True s))) \<and>
      (fst (extractNewTextNodes h addedNodes s) = Inr items2 \<longrightarrow>
         appendsTo True s items2 (snd (extractNewTextNodes h addedNodes s))))"
proof -
  have A: "extractTextNodes h rootNode ancestors False s0
     = extractTextNodes h rootNode ancestors True
         (s0\<lparr>textNodeMap := [], translatedNodeSet := {}, nextId := 0\<rparr>)"
    by (simp add: extractTextNodes_def walkLoop_onlyNew_irrelevant)
  note full = extractTextNodes_full_extends[of s0 h rootNode ancestors]
  have B: "translatedNodeSet (snd (extractTextNodes h rootNode ancestors False s0)) = {}"
    using extendsBy_grows[OF full] by (simp add: grows_def)
  have C: "fst ` set (textNodeMap (snd (extractTextNodes h rootNode ancestors False s0)))
        = item_id ` set items0 \<and>
      nextId (snd (extractTextNodes h rootNode ancestors False s0)) = int (length items0)"
    if "fst (extractTextNodes h rootNode ancestors False s0) = Inr items0"
    using full that by (simp add: extendsBy_def extends_def appendsTo_def newEntries_def)
  have D: "grows True s (snd (extractTextNodes h rootNode ancestors True s))"
    "grows True s (snd (extractNewTextNodes h addedNodes s))" if "idsBelowNext s"
    using extendsBy_grows[OF extractTextNodes_incremental_extends[OF that, of h rootNode ancestors]]
      extendsBy_grows[OF extractNewTextNodes_extends[OF that, of h addedNodes]]
    by simp_all
  have E: "appendsTo True s items1 (snd (extractTextNodes h rootNode ancestors True s))"
    if "idsBelowNext s" "fst (extractTextNodes h rootNode ancestors True s) = Inr items1"
    using extractTextNodes_incremental_extends[OF that(1), of h rootNode ancestors] that(2)
    by (simp add: extendsBy_def extends_def)
  have F: "appendsTo True s items2 (snd (extractNewTextNodes h addedNodes s))"
    if "idsBelowNext s" "fst (extractNewTextNodes h addedNodes s) = Inr items2"
    using extractNewTextNodes_extends[OF that(1), of h addedNodes] that(2)
    by (simp add: extendsBy_def extends_def)
  show ?thesis
  proof (intro conjI impI)
    show "extractTextNodes h rootNode ancestors False s0
     = extractTextNodes h rootNode ancestors True
         (s0\<lparr>textNodeMap := [], translatedNodeSet := {}, nextId := 0\<rparr>)" by (rule A)
    show "translatedNodeSet (snd (extractTextNodes h rootNode ancestors False s0)) = {}" by (rule B)
    show "fst ` set (textNodeMap (snd (extractTextNodes h rootNode ancestors False s0)))
        = item_id ` set items0"
      if "fst (extractTextNodes h rootNode ancestors False s0) = Inr items0"
      using C[OF that] by simp
    show "nextId (snd (extractTextNodes h rootNode ancestors False s0)) = int (length items0)"
      if "fst (extractTextNodes h rootNode ancestors False s0) = Inr items0"
      using C[OF that] by simp
    show "neverShrinks s (snd (extractTextNodes h rootNode ancestors True s))"
      by (rule neverShrinks_extractTextNodes)
    show "neverShrinks s (snd (extractNewTextNodes h addedNodes s))"
      by (rule neverShrinks_extractNewTextNodes)
    show "grows True s (snd (extractTextNodes h rootNode ancestors True s))" if "idsBelowNext s"
      by (rule D(1)[OF that])
    show "grows True s (snd (extractNewTextNodes h addedNodes s))" if "idsBelowNext s"
      by (rule D(2)[OF that])
    show "appendsTo True s items1 (snd (extractTextNodes h rootNode ancestors True s))"
      if "idsBelowNext s" "fst (extractTextNodes h rootNode ancestors True s) = Inr items1"
      by (rule E[OF that])
    show "appendsTo True s items2 (snd (extractNewTextNodes h addedNodes s))"
      if "idsBelowNext s" "fst (extractNewTextNodes h addedNodes s) = Inr items2"
      by (rule F[OF that])
  qed
qed

lemmas extract_eval =
  extractTextNodes_def extractNewTextNodes_def walkerNodes_def twoBody_def acceptNode_def
  isNodeProcessed_def shouldSkipElement_def SKIP_TAGS_def isTranslatableText_def MIN_TEXT_LENGTH_def
  registerNode_def sortByPriority_def score_eval asciiHasLetters_def
  initialPage_def threeNodePage_def holaPage_def replaceTextNode_def markTranslated_def emit_def
  leadingSpace_def

lemma holaPage_eval:
  "idsBelowNext holaPage"
  "translatedNodeSet holaPage = {11}"
  "map fst (textNodeMap holaPage) = [0, 1, 2]"
  "nextId holaPage = 3"
  by (simp_all add: idsBelowNext_def holaPage_def threeNodePage_def initialPage_def
      replaceTextNode_def markTranslated_def emit_def Let_def)

lemma full_eval:
  "fst (extractTextNodes exampleHost twoBody [plainElement ''HTML'' visibleRect] False holaPage)
     = Inr [\<lparr>item_id = 1, item_text = js ''Hola'', item_priority = 10260\<rparr>,
            \<lparr>item_id = 0, item_text = js ''Title'', item_priority = 0\<rparr>]"
  "map (\<lambda>(k, e). (k, node e)) (textNodeMap (snd (extractTextNodes exampleHost twoBody
        [plainElement ''HTML'' visibleRect] False holaPage))) = [(0, 10), (1, 11)]"
  by (simp_all add: extract_eval)

lemma incremental_eval:
  "fst (extractTextNodes exampleHost twoBody [plainElement ''HTML'' visibleRect] True holaPage)
     = Inr [\<lparr>item_id = 3, item_text = js ''Title'', item_priority = 0\<rparr>]"
  "textNodeMap (snd (extractTextNodes exampleHost twoBody [plainElement ''HTML'' visibleRect] True holaPage))
     = textNodeMap holaPage @
       [(3, \<lparr>node = 10, originalText = js ''Title'', translated = False, translatedText = None\<rparr>)]"
  by (simp_all add: extract_eval)

lemma added_eval:
  "fst (extractNewTextNodes exampleHost
          [AddedText 12 [plainElement ''P'' visibleRect], AddedText 11 [plainElement ''P'' visibleRect]] holaPage)
     = Inr [\<lparr>item_id = 3, item_text = js ''World'', item_priority = 10260\<rparr>]"
  by (simp_all add: extract_eval)

lemma idsBelowNext_keys:
  "map fst (textNodeMap s') = map fst (textNodeMap s) \<Longrightarrow> nextId s' = nextId s \<Longrightarrow>
   idsBelowNext s' = idsBelowNext s"
proof -
  assume a: "map fst (textNodeMap s') = map fst (textNodeMap s)" and b: "nextId s' = nextId s"
  have "idsBelowNext x = list_all (\<lambda>k. k < nextId x) (map fst (textNodeMap x))" for x
    by (simp add: idsBelowNext_def list_all_iff case_prod_unfold)
  then show ?thesis using a b by simp
qed

lemma fst_mark_translated:
  "fst (case x of (k, e) \<Rightarrow> if k = j then (k, e\<lparr>translated := True\<rparr>) else (k, e)) = fst x"
  by (cases x) simp

lemma restoreCachedLoop_keys:
  "map fst (textNodeMap (snd (restoreCachedLoop es c s))) = map fst (textNodeMap s) \<and>
   nextId (snd (restoreCachedLoop es c s)) = nextId s"
proof (induction es arbitrary: c s)
  case Nil
  show ?case by simp
next
  case (Cons p es)
  obtain j e where p: "p = (j, e)" by (cases p)
  show ?case using Cons.IH by (simp add: p fst_mark_translated split: option.split)
qed

lemma replaceTextNode_keys:
  "fst ` set (textNodeMap (snd (replaceTextNode ident t s))) = fst ` set (textNodeMap s)"
  "nextId (snd (replaceTextNode ident t s)) = nextId s"
proof -
  show "nextId (snd (replaceTextNode ident t s)) = nextId s"
    by (simp add: replaceTextNode_def markTranslated_def emit_def Let_def split: option.split)
  show "fst ` set (textNodeMap (snd (replaceTextNode ident t s))) = fst ` set (textNodeMap s)"
  proof (cases "map_of (textNodeMap s) ident")
    case None
    then show ?thesis by (simp add: replaceTextNode_def emit_def)
  next
    case (Some en)
    then have "(ident, en) \<in> set (textNodeMap s)" by (rule map_of_SomeD)
    then have "ident \<in> fst ` set (textNodeMap s)" by (rule rev_image_eqI) simp
    then have "insert ident (fst ` set (textNodeMap s)) = fst ` set (textNodeMap s)" by blast
    then show ?thesis using Some
      by (simp add: replaceTextNode_def markTranslated_def emit_def Let_def dom_update
          split: option.split)
  qed
qed

text \<open>
  The registry invariant holds when the script is loaded, and every operation that
  writes the registry or the counter keeps it, whether it returns or throws.
\<close>

lemma idsBelowNext_invariant:
  "idsBelowNext (initialPage texts)"
  "idsBelowNext (snd (extractTextNodes h rootNode ancestors False s0))"
  "idsBelowNext s \<Longrightarrow> idsBelowNext (snd (extractTextNodes h rootNode ancestors True s))"
  "idsBelowNext s \<Longrightarrow> idsBelowNext (snd (extractNewTextNodes h addedNodes s))"
  "idsBelowNext s \<Longrightarrow> idsBelowNext (snd (replaceTextNode ident t s))"
  "idsBelowNext s \<Longrightarrow> idsBelowNext (restoreOriginalText s)"
  "idsBelowNext s \<Longrightarrow> idsBelowNext (snd (restoreCachedTranslations s))"
proof -
  show "idsBelowNext (initialPage texts)" by (simp add: idsBelowNext_def initialPage_def)
  show "idsBelowNext (snd (extractTextNodes h rootNode ancestors False s0))"
    by (rule extendsBy_ids[OF extractTextNodes_full_extends])
  show "idsBelowNext (snd (extractTextNodes h rootNode ancestors True s))" if "idsBelowNext s"
    by (rule extendsBy_ids[OF extractTextNodes_incremental_extends[OF that]])
  show "idsBelowNext (snd (extractNewTextNodes h addedNodes s))" if "idsBelowNext s"
    by (rule extendsBy_ids[OF extractNewTextNodes_extends[OF that]])
  show "idsBelowNext (snd (replaceTextNode ident t s))" if "idsBelowNext s"
  proof -
    have c: "idsBelowNext x = (\<forall>k \<in> fst ` set (textNodeMap x). k < nextId x)" for x
      by (simp add: idsBelowNext_def list_all_iff case_prod_unfold)
    show ?thesis unfolding c replaceTextNode_keys using that unfolding c .
  qed
  show "idsBelowNext (restoreOriginalText s)" if "idsBelowNext s"
  proof -
    have "nextId (restoreOriginalLoop es x) = nextId x" for es x
    proof (induction es arbitrary: x)
      case (Cons p es)
      then show ?case by (cases p) simp
    qed simp
    then show ?thesis using that
      by (simp add: idsBelowNext_def restoreOriginalText_def stopAutoTranslate_def
          restoreOriginalLoop_textNodeMap)
  qed
  show "idsBelowNext (snd (restoreCachedTranslations s))" if "idsBelowNext s"
  proof (cases "hasTranslationCache s")
    case False
    then show ?thesis using that by (simp add: restoreCachedTranslations_def)
  next
    case True
    obtain c s' where l: "restoreCachedLoop (textNodeMap s) 0 s = (c, s')"
      by (cases "restoreCachedLoop (textNodeMap s) 0 s")
    have "idsBelowNext s' = idsBelowNext s"
      using restoreCachedLoop_keys[of "textNodeMap s" 0 s] l by (intro idsBelowNext_keys) simp_all
    then have "idsBelowNext (s'\<lparr>isShowingTranslations := True\<rparr>)"
      using that by (simp add: idsBelowNext_def)
    then show ?thesis using True l by (simp add: restoreCachedTranslations_def)
  qed
qed

theorem extraction_items_resolve_witness:
  "fst (extractTextNodes exampleHost twoBody [plainElement ''HTML'' visibleRect] False holaPage)
     = Inr [\<lparr>item_id = 1, item_text = js ''Hola'', item_priority = 10260\<rparr>,
            \<lparr>item_id = 0, item_text = js ''Title'', item_priority = 0\<rparr>] \<and>
   emittedOk [\<lparr>item_id = 1, item_text = js ''Hola'', item_priority = 10260\<rparr>,
              \<lparr>item_id = 0, item_text = js ''Title'', item_priority = 0\<rparr>]
             (snd (extractTextNodes exampleHost twoBody [plainElement ''HTML'' visibleRect] False holaPage)) \<and>
   idsBelowNext holaPage \<and>
   fst (extractTextNodes exampleHost twoBody [plainElement ''HTML'' visibleRect] True holaPage)
     = Inr [\<lparr>item_id = 3, item_text = js ''Title'', item_priority = 0\<rparr>] \<and>
   emittedOk [\<lparr>item_id = 3, item_text = js ''Title'', item_priority = 0\<rparr>]
             (snd (extractTextNodes exampleHost twoBody [plainElement ''HTML'' visibleRect] True holaPage)) \<and>
   freshIds holaPage [\<lparr>item_id = 3, item_text = js ''Title'', item_priority = 0\<rparr>] \<and>
   fst (extractNewTextNodes exampleHost
        [AddedText 12 [plainElement ''P'' visibleRect], AddedText 11 [plainElement ''P'' visibleRect]] holaPage)
     = Inr [\<lparr>item_id = 3, item_text = js ''World'', item_priority = 10260\<rparr>] \<and>
   emittedOk [\<lparr>item_id = 3, item_text = js ''World'', item_priority = 10260\<rparr>]
     (snd (extractNewTextNodes exampleHost
        [AddedText 12 [plainElement ''P'' visibleRect], AddedText 11 [plainElement ''P'' visibleRect]] holaPage))"
  using extraction_items_resolve
    [of exampleHost twoBody "[plainElement ''HTML'' visibleRect]" holaPage
        "[\<lparr>item_id = 1, item_text = js ''Hola'', item_priority = 10260\<rparr>,
          \<lparr>item_id = 0, item_text = js ''Title'', item_priority = 0\<rparr>]"
        holaPage
        "[\<lparr>item_id = 3, item_text = js ''Title'', item_priority = 0\<rparr>]"
        "[AddedText 12 [plainElement ''P'' visibleRect], AddedText 11 [plainElement ''P'' visibleRect]]"
        "[\<lparr>item_id = 3, item_text = js ''World'', item_priority = 10260\<rparr>]"]
    holaPage_eval(1) full_eval(1) incremental_eval(1) added_eval
  by simp

theorem extraction_modes_witness:
  "fst (extractTextNodes exampleHost twoBody [plainElement ''HTML'' visibleRect] False holaPage)
     = Inr [\<lparr>item_id = 1, item_text = js ''Hola'', item_priority = 10260\<rparr>,
            \<lparr>item_id = 0, item_text = js ''Title'', item_priority = 0\<rparr>] \<and>
   nextId (snd (extractTextNodes exampleHost twoBody [plainElement ''HTML'' visibleRect] False holaPage)) = 2 \<and>
   translatedNodeSet (snd (extractTextNodes exampleHost twoBody [plainElement ''HTML'' visibleRect] False holaPage))
     = {} \<and>
   translatedNodeSet holaPage = {11} \<and>
   idsBelowNext holaPage \<and>
   fst (extractTextNodes exampleHost twoBody [plainElement ''HTML'' visibleRect] True holaPage)
     = Inr [\<lparr>item_id = 3, item_text = js ''Title'', item_priority = 0\<rparr>] \<and>
   appendsTo True holaPage [\<lparr>item_id = 3, item_text = js ''Title'', item_priority = 0\<rparr>]
     (snd (extractTextNodes exampleHost twoBody [plainElement ''HTML'' visibleRect] True holaPage)) \<and>
   textNodeMap (snd (extractTextNodes exampleHost twoBody [plainElement ''HTML'' visibleRect] True holaPage))
     = textNodeMap holaPage @
       [(3, \<lparr>node = 10, originalText = js ''Title'', translated = False, translatedText = None\<rparr>)] \<and>
   neverShrinks holaPage
     (snd (extractTextNodes exampleHost twoBody [plainElement ''HTML'' visibleRect] True holaPage))"
  using extraction_modes
    [where h = exampleHost and rootNode = twoBody and ancestors = "[plainElement ''HTML'' visibleRect]"
       and ?s0.0 = holaPage and s = holaPage and addedNodes = "[]"
       and ?items0.0 = "[\<lparr>item_id = 1, item_text = js ''Hola'', item_priority = 10260\<rparr>,
                      \<lparr>item_id = 0, item_text = js ''Title'', item_priority = 0\<rparr>]"
       and ?items1.0 = "[\<lparr>item_id = 3, item_text = js ''Title'', item_priority = 0\<rparr>]"
       and ?items2.0 = "[]", THEN conjunct2]
    holaPage_eval(1,2) full_eval(1) incremental_eval
  by simp

section \<open>The registry invariant along a run\<close>

lemma drainLoop_rel:
  assumes r: "\<And>s. R s s" and t: "\<And>a b c. R a b \<Longrightarrow> R b c \<Longrightarrow> R a c"
    and tb: "\<And>textItems retries s.
               R s (snd (translateBatch h cancelAt translator textItems targetLanguage sourceLanguage retries s))"
    and upd: "\<And>s q. R s (s\<lparr>pendingTranslationQueue := q\<rparr>)"
    and st: "\<And>m e s. R s (showStatus m e s)"
  shows "R s (snd (snd (drainLoop h cancelAt translator targetLanguage sourceLanguage totalApplied failedItems s)))"
  using r t tb upd st
proof (induction h cancelAt translator targetLanguage sourceLanguage totalApplied failedItems s
       rule: drainLoop.induct)
  case (1 h cancelAt translator targetLanguage sourceLanguage totalApplied failedItems s)
  note r = "1.prems"(1) and t = "1.prems"(2) and tb = "1.prems"(3) and upd = "1.prems"(4) and st = "1.prems"(5)
  show ?case
  proof (cases "pendingTranslationQueue s \<noteq> [] \<and> \<not> translationCancelled s")
    case False
    then show ?thesis using r by (subst drainLoop.simps) auto
  next
    case True
    define s0 where "s0 = showStatus TranslatingPercent False
                      (s\<lparr>pendingTranslationQueue := drop 8 (pendingTranslationQueue s)\<rparr>)"
    obtain result s' where b: "translateBatch h cancelAt translator (take 8 (pendingTranslationQueue s))
                   targetLanguage sourceLanguage 3 s0 = (result, s')"
      by (cases "translateBatch h cancelAt translator (take 8 (pendingTranslationQueue s))
                   targetLanguage sourceLanguage 3 s0")
    have "R s s0" unfolding s0_def by (rule t[OF upd st])
    moreover have "R s0 s'" using tb[of s0 "take 8 (pendingTranslationQueue s)" 3] b by simp
    ultimately have i1: "R s s'" by (rule t)
    show ?thesis
    proof (cases "translationCancelled s'")
      case c: True
      have "R s (showStatus TranslationCancelled False s')" by (rule t[OF i1 st])
      then show ?thesis using True b c by (subst drainLoop.simps) (simp add: s0_def)
    next
      case c: False
      have "R s' (snd (snd (drainLoop h cancelAt translator targetLanguage sourceLanguage
                       (totalApplied + applied result) (failedItems @ failed result) s')))"
        using "1.IH"[OF True b[unfolded s0_def, symmetric] c r t tb upd st] .
      then have "R s (snd (snd (drainLoop h cancelAt translator targetLanguage sourceLanguage
                       (totalApplied + applied result) (failedItems @ failed result) s')))"
        by (rule t[OF i1])
      then show ?thesis using True b c by (subst drainLoop.simps) (simp add: s0_def)
    qed
  qed
qed

lemma retryBatches_rel:
  assumes r: "\<And>s. R s s" and t: "\<And>a b c. R a b \<Longrightarrow> R b c \<Longrightarrow> R a c"
    and tb: "\<And>textItems retries s.
               R s (snd (translateBatch h cancelAt translator textItems targetLanguage sourceLanguage retries s))"
  shows "R s (snd (snd (retryBatches h cancelAt translator targetLanguage sourceLanguage itemsToRetry i
                          totalApplied failedItems s)))"
  using r t tb
proof (induction h cancelAt translator targetLanguage sourceLanguage itemsToRetry i totalApplied failedItems s
       rule: retryBatches.induct)
  case (1 h cancelAt translator targetLanguage sourceLanguage itemsToRetry i totalApplied failedItems s)
  note r = "1.prems"(1) and t = "1.prems"(2) and tb = "1.prems"(3)
  show ?case
  proof (cases "i < length itemsToRetry \<and> \<not> translationCancelled s")
    case False
    then show ?thesis using r by (subst retryBatches.simps) auto
  next
    case True
    obtain result s' where b: "translateBatch h cancelAt translator (take 4 (drop i itemsToRetry))
                   targetLanguage sourceLanguage 1 s = (result, s')"
      by (cases "translateBatch h cancelAt translator (take 4 (drop i itemsToRetry))
                   targetLanguage sourceLanguage 1 s")
    have i1: "R s s'" using tb[of s "take 4 (drop i itemsToRetry)" 1] b by simp
    have "R s' (snd (snd (retryBatches h cancelAt translator targetLanguage sourceLanguage itemsToRetry
              (i + 4) (totalApplied + applied result) (failedItems @ failed result) s')))"
      using "1.IH"[OF True b[symmetric] r t tb] .
    then have "R s (snd (snd (retryBatches h cancelAt translator targetLanguage sourceLanguage itemsToRetry
              (i + 4) (totalApplied + applied result) (failedItems @ failed result) s')))"
      by (rule t[OF i1])
    then show ?thesis using True b by (subst retryBatches.simps) simp
  qed
qed

lemma retryRounds_rel:
  assumes r: "\<And>s. R s s" and t: "\<And>a b c. R a b \<Longrightarrow> R b c \<Longrightarrow> R a c"
    and tb: "\<And>textItems retries s.
               R s (snd (translateBatch h cancelAt translator textItems targetLanguage sourceLanguage retries s))"
    and st: "\<And>m e s. R s (showStatus m e s)"
    and em: "\<And>ms s. R s (emit (SetTimeout ms) s)"
    and su: "\<And>s. R s (suspend cancelAt s)"
  shows "R s (snd (snd (retryRounds h cancelAt translator targetLanguage sourceLanguage retryAttempts
                          totalApplied failedItems s)))"
  using r t tb st em su
proof (induction h cancelAt translator targetLanguage sourceLanguage retryAttempts totalApplied failedItems s
       rule: retryRounds.induct)
  case (1 h cancelAt translator targetLanguage sourceLanguage retryAttempts totalApplied failedItems s)
  note r = "1.prems"(1) and t = "1.prems"(2) and tb = "1.prems"(3) and st = "1.prems"(4)
    and em = "1.prems"(5) and su = "1.prems"(6)
  show ?case
  proof (cases "failedItems \<noteq> [] \<and> retryAttempts < 2 \<and> \<not> translationCancelled s")
    case False
    then show ?thesis using r by (subst retryRounds.simps) auto
  next
    case True
    define s0 where "s0 = suspend cancelAt
                      (emit (SetTimeout (500 * (retryAttempts + 1)))
                         (showStatus TranslatingPercent False s))"
    obtain a f s' where b: "retryBatches h cancelAt translator targetLanguage sourceLanguage failedItems 0
                              totalApplied [] s0 = (a, f, s')"
      by (cases "retryBatches h cancelAt translator targetLanguage sourceLanguage failedItems 0
                              totalApplied [] s0") auto
    have "R s s0" unfolding s0_def by (rule t[OF t[OF st em] su])
    moreover have "R s0 s'"
      using retryBatches_rel[where R = R and s = s0 and itemsToRetry = failedItems and i = 0
          and totalApplied = totalApplied and failedItems = "[]" and h = h and cancelAt = cancelAt
          and translator = translator and targetLanguage = targetLanguage
          and sourceLanguage = sourceLanguage, OF r t tb] b by simp
    ultimately have i1: "R s s'" by (rule t)
    have "R s' (snd (snd (retryRounds h cancelAt translator targetLanguage sourceLanguage
              (retryAttempts + 1) a f s')))"
      using "1.IH"[OF True b[unfolded s0_def, symmetric] refl r t tb st em su] .
    then have "R s (snd (snd (retryRounds h cancelAt translator targetLanguage sourceLanguage
              (retryAttempts + 1) a f s')))"
      by (rule t[OF i1])
    then show ?thesis using True b by (subst retryRounds.simps) (simp add: s0_def)
  qed
qed

lemma sameIds_refl: "sameIds s s"
  by (simp add: sameIds_def)

lemma sameIds_trans: "sameIds a b \<Longrightarrow> sameIds b c \<Longrightarrow> sameIds a c"
  by (simp add: sameIds_def)

lemma sameIds_translateBatch:
  "sameIds s (snd (translateBatch h cancelAt translator textItems targetLanguage sourceLanguage retries s))"
proof (rule translateBatch_rel[where R = sameIds], goal_cases)
  case (1 s) show ?case by (rule sameIds_refl)
next
  case (2 a b c) then show ?case by (rule sameIds_trans)
next
  case (3 i t s) show ?case by (simp add: sameIds_def replaceTextNode_keys)
next
  case (4 e s) show ?case by (simp add: sameIds_def emit_def)
next
  case (5 s) show ?case by (simp add: sameIds_def suspend_registry suspend_def onCancelTranslation_def
        stopAutoTranslate_def emit_def Let_def)
next
  case 6 show ?case by (simp add: sameIds_def emit_def)
qed

lemma sameIds_idsBelowNext: "sameIds s s' \<Longrightarrow> idsBelowNext s \<Longrightarrow> idsBelowNext s'"
proof -
  have c: "idsBelowNext x = (\<forall>k \<in> fst ` set (textNodeMap x). k < nextId x)" for x
    by (simp add: idsBelowNext_def list_all_iff case_prod_unfold)
  show "sameIds s s' \<Longrightarrow> idsBelowNext s \<Longrightarrow> idsBelowNext s'"
    unfolding c sameIds_def by simp
qed

lemma idsBelowNext_translateBatch:
  "idsBelowNext s \<Longrightarrow>
   idsBelowNext (snd (translateBatch h cancelAt translator textItems targetLanguage sourceLanguage retries s))"
  by (rule sameIds_idsBelowNext[OF sameIds_translateBatch])

lemma idsBelowNext_translatePage:
  assumes "idsBelowNext s"
  shows "idsBelowNext (translatePage h cancelAt translator body bodyAncestors targetLanguage
                         sourceLanguage enableAutoTranslate s)"
proof (cases "translationInProgress s")
  case True
  then show ?thesis using assms by (simp add: translatePage_def showStatus_def emit_def idsBelowNext_def)
next
  case False
  define sa where "sa = (showStatus ExtractingText False
                       (s\<lparr>currentTargetLanguage := targetLanguage, translationInProgress := True,
                          translationCancelled := False\<rparr>))\<lparr>scrollListener := True\<rparr>"
  obtain outcome s1 where ex: "extractTextNodes h body bodyAncestors False sa = (outcome, s1)"
    by (cases "extractTextNodes h body bodyAncestors False sa")
  have i1: "idsBelowNext s1" using idsBelowNext_invariant(2)[of h body bodyAncestors sa] ex by simp
  have st: "sameIds x (showStatus m e x)" for m e x by (simp add: sameIds_def showStatus_def emit_def)
  have fin: "idsBelowNext (finishRun x)" if "idsBelowNext x" for x
    using that by (simp add: idsBelowNext_def finishRun_def)
  show ?thesis
  proof (cases outcome)
    case (Inl e)
    have "idsBelowNext (showStatus (TranslationError e) True s1)"
      using i1 by (simp add: idsBelowNext_def showStatus_def emit_def)
    from fin[OF this] show ?thesis using False ex Inl by (simp add: translatePage_def sa_def)
  next
    case (Inr textItems)
    show ?thesis
  proof (cases "textItems = []")
    case True
    have "idsBelowNext ((showStatus NoTranslatableText True s1)\<lparr>translationInProgress := False\<rparr>)"
      using i1 by (simp add: idsBelowNext_def showStatus_def emit_def)
    from fin[OF this] show ?thesis using False ex Inr True by (simp add: translatePage_def sa_def)
  next
    case ne: False
    define sb where "sb = showStatus (FoundElements (length textItems)) False
                                (s1\<lparr>pendingTranslationQueue := textItems\<rparr>)"
    obtain a f s2 where dl: "drainLoop h cancelAt translator targetLanguage sourceLanguage 0 [] sb = (a, f, s2)"
      by (cases "drainLoop h cancelAt translator targetLanguage sourceLanguage 0 [] sb") auto
    have ib: "idsBelowNext sb" using i1 by (simp add: idsBelowNext_def sb_def showStatus_def emit_def)
    have "sameIds sb s2"
      using drainLoop_rel[where R = sameIds and s = sb and h = h and cancelAt = cancelAt
          and translator = translator and targetLanguage = targetLanguage
          and sourceLanguage = sourceLanguage and totalApplied = 0 and failedItems = "[]",
          OF sameIds_refl sameIds_trans sameIds_translateBatch _ st] dl
      by (simp add: sameIds_def)
    then have i2: "idsBelowNext s2" using ib by (rule sameIds_idsBelowNext)
    obtain a' f' s3 where rr: "retryRounds h cancelAt translator targetLanguage sourceLanguage 0 a f s2
                                 = (a', f', s3)"
      by (cases "retryRounds h cancelAt translator targetLanguage sourceLanguage 0 a f s2") auto
    have "sameIds s2 s3"
      using retryRounds_rel[where R = sameIds and s = s2 and h = h and cancelAt = cancelAt
          and translator = translator and targetLanguage = targetLanguage
          and sourceLanguage = sourceLanguage and retryAttempts = 0 and totalApplied = a
          and failedItems = f,
          OF sameIds_refl sameIds_trans sameIds_translateBatch st] rr
      by (simp add: sameIds_def emit_def suspend_registry suspend_def onCancelTranslation_def
          stopAutoTranslate_def Let_def)
    then have i3: "idsBelowNext s3" using i2 by (rule sameIds_idsBelowNext)
    have "idsBelowNext (completeRun h cancelAt translator targetLanguage sourceLanguage
                          enableAutoTranslate (length textItems) a f s2)"
      using i3 rr by (simp add: completeRun_def idsBelowNext_def showStatus_def emit_def
          startAutoTranslate_def Let_def)
    then have "idsBelowNext (if \<not> translationCancelled s2
                             then completeRun h cancelAt translator targetLanguage sourceLanguage
                                    enableAutoTranslate (length textItems) a f s2
                             else s2)"
      using i2 by simp
    from fin[OF this] show ?thesis using False ex Inr ne dl
      by (simp add: translatePage_def sa_def sb_def)
  qed
  qed
qed

end
